theory Spec2Isabelle
  imports Main "HOL-Library.Word"
begin

section \<open>The pool allocator of cppcore (Memory/TPoolAllocator.h)\<close>

text \<open>
  The allocator keeps a singly linked chain of \<open>Pool\<close> objects, reached through the raw
  pointers \<open>m_first\<close>, \<open>m_current\<close> and \<open>m_freeList\<close>. After \<open>release()\<close> the free list
  is the tail of the primary chain itself, so the three pointers alias the same objects.
  The model therefore keeps an explicit store: a map from addresses to the live \<open>Pool\<close>
  objects and a map from addresses to the live element arrays (with their length).
  \<open>new\<close> takes the next unused address and never hands an address out twice;
  it is assumed to succeed. \<open>size_t\<close> is taken to be 64 bits wide.
  A null pointer is \<open>None\<close>. Dereferencing a null pointer, an object that has been deleted,
  or deleting an array twice is undefined behaviour in C++; the model returns it as a
  \<open>fault\<close> value.
\<close>

type_synonym addr = nat
type_synonym size_t = "64 word"

datatype fault = NullDeref | UseAfterFree | DoubleFree

subsection \<open>struct Pool\<close>

record Pool =
  m_poolsize :: size_t
  m_pool :: "addr option"
  m_currentIdx :: size_t
  m_next :: "addr option"

subsection \<open>The allocator object together with the memory it works on\<close>

record TPoolAllocator =
  pools :: "addr \<Rightarrow> Pool option"
  arrays :: "addr \<Rightarrow> size_t option"
  fresh :: addr
  m_first :: "addr option"
  m_current :: "addr option"
  m_freeList :: "addr option"
  m_capacity :: size_t

text \<open>A pointer to an element, \<open>T *\<close>: null, or the address of slot \<open>i\<close> of array \<open>b\<close>.\<close>

type_synonym elem_ptr = "(addr \<times> size_t) option"

text \<open>\<open>new T[n]\<close>\<close>

definition new_array :: "size_t \<Rightarrow> TPoolAllocator \<Rightarrow> addr \<times> TPoolAllocator" where
  "new_array n s =
     (fresh s, s\<lparr>arrays := (arrays s)(fresh s \<mapsto> n), fresh := Suc (fresh s)\<rparr>)"

text \<open>\<open>new Pool(numItems, prev)\<close>: the constructor allocates the element array.\<close>

definition new_Pool :: "size_t \<Rightarrow> addr option \<Rightarrow> TPoolAllocator \<Rightarrow> addr \<times> TPoolAllocator" where
  "new_Pool numItems prev s =
     (case new_array numItems s of (b, s1) \<Rightarrow>
        (fresh s1,
         s1\<lparr>pools := (pools s1)(fresh s1 \<mapsto>
               \<lparr>m_poolsize = numItems, m_pool = Some b, m_currentIdx = 0, m_next = prev\<rparr>),
            fresh := Suc (fresh s1)\<rparr>))"

text \<open>\<open>delete p\<close>: the destructor \<open>~Pool\<close> runs \<open>delete[] m_pool\<close> (a no-op on a null
  pointer), then the object itself is freed.\<close>

definition delete_Pool :: "addr \<Rightarrow> TPoolAllocator \<Rightarrow> fault + TPoolAllocator" where
  "delete_Pool p s =
     (case pools s p of
        None \<Rightarrow> Inl UseAfterFree
      | Some c \<Rightarrow>
          (case m_pool c of
             None \<Rightarrow> Inr (s\<lparr>pools := (pools s)(p := None)\<rparr>)
           | Some b \<Rightarrow>
               (case arrays s b of
                  None \<Rightarrow> Inl DoubleFree
                | Some n \<Rightarrow>
                    Inr (s\<lparr>arrays := (arrays s)(b := None), pools := (pools s)(p := None)\<rparr>))))"

text \<open>Reading through a \<open>Pool *\<close>.\<close>

definition deref :: "TPoolAllocator \<Rightarrow> addr option \<Rightarrow> fault + Pool" where
  "deref s q =
     (case q of
        None \<Rightarrow> Inl NullDeref
      | Some p \<Rightarrow> (case pools s p of None \<Rightarrow> Inl UseAfterFree | Some c \<Rightarrow> Inr c))"

subsection \<open>Constructors\<close>

definition empty_memory :: TPoolAllocator where
  "empty_memory =
     \<lparr>pools = (\<lambda>a. None), arrays = (\<lambda>a. None), fresh = 0,
      m_first = None, m_current = None, m_freeList = None, m_capacity = 0\<rparr>"

text \<open>\<open>TPoolAllocator()\<close>\<close>

definition TPoolAllocator_default :: TPoolAllocator where
  "TPoolAllocator_default = empty_memory"

text \<open>\<open>TPoolAllocator(size_t numItems)\<close>\<close>

definition TPoolAllocator_numItems :: "size_t \<Rightarrow> TPoolAllocator" where
  "TPoolAllocator_numItems numItems =
     (case new_Pool numItems None empty_memory of (p, s1) \<Rightarrow>
        s1\<lparr>m_first := Some p, m_capacity := m_capacity s1 + numItems, m_current := Some p\<rparr>)"

subsection \<open>getFreePool and resize\<close>

definition getFreePool :: "TPoolAllocator \<Rightarrow> fault + (addr option \<times> TPoolAllocator)" where
  "getFreePool s =
     (case m_freeList s of
        None \<Rightarrow> Inr (None, s)
      | Some f \<Rightarrow>
          (case pools s f of
             None \<Rightarrow> Inl UseAfterFree
           | Some c \<Rightarrow> Inr (Some f, s\<lparr>m_freeList := m_next c\<rparr>)))"

text \<open>The part of \<open>resize\<close> after the early return.\<close>

definition resize_grow :: "size_t \<Rightarrow> TPoolAllocator \<Rightarrow> fault + TPoolAllocator" where
  "resize_grow growSize s =
     (if m_first s = None then
        (case new_Pool growSize None s of (p, s1) \<Rightarrow>
           (case deref s1 (Some p) of
              Inl e \<Rightarrow> Inl e
            | Inr c \<Rightarrow>
                Inr (s1\<lparr>m_first := Some p, m_current := Some p,
                        m_capacity := m_capacity s1 + m_poolsize c\<rparr>)))
      else
        (case getFreePool s of
           Inl e \<Rightarrow> Inl e
         | Inr (pool, s1) \<Rightarrow>
             (case (case pool of
                      None \<Rightarrow>
                        (case new_Pool growSize None s1 of (p, s2) \<Rightarrow>
                           (p, s2\<lparr>m_capacity := m_capacity s2 + growSize\<rparr>))
                    | Some q \<Rightarrow> (q, s1)) of
                (pool', s3) \<Rightarrow>
                  (case m_current s3 of
                     None \<Rightarrow> Inl NullDeref
                   | Some cur \<Rightarrow>
                       (case pools s3 cur of
                          None \<Rightarrow> Inl UseAfterFree
                        | Some c \<Rightarrow>
                            Inr (s3\<lparr>pools := (pools s3)(cur \<mapsto> c\<lparr>m_next := Some pool'\<rparr>),
                                    m_current := Some pool'\<rparr>))))))"

definition resize :: "size_t \<Rightarrow> TPoolAllocator \<Rightarrow> fault + TPoolAllocator" where
  "resize growSize s =
     (case m_current s of
        None \<Rightarrow> resize_grow growSize s
      | Some p \<Rightarrow>
          (case pools s p of
             None \<Rightarrow> Inl UseAfterFree
           | Some c \<Rightarrow>
               if growSize < m_poolsize c then Inr s else resize_grow growSize s))"

subsection \<open>alloc\<close>

definition alloc :: "TPoolAllocator \<Rightarrow> fault + (elem_ptr \<times> TPoolAllocator)" where
  "alloc s =
     (case m_current s of
        None \<Rightarrow> Inr (None, s)
      | Some p \<Rightarrow>
          (case pools s p of
             None \<Rightarrow> Inl UseAfterFree
           | Some c \<Rightarrow>
               (case (if m_currentIdx c = m_poolsize c then resize (m_poolsize c) s
                      else Inr s) of
                  Inl e \<Rightarrow> Inl e
                | Inr s1 \<Rightarrow>
                    (case m_current s1 of
                       None \<Rightarrow> Inl NullDeref
                     | Some q \<Rightarrow>
                         (case pools s1 q of
                            None \<Rightarrow> Inl UseAfterFree
                          | Some d \<Rightarrow>
                              (case m_pool d of
                                 None \<Rightarrow> Inl NullDeref
                               | Some b \<Rightarrow>
                                   Inr (Some (b, m_currentIdx d),
                                        s1\<lparr>pools := (pools s1)(q \<mapsto>
                                              d\<lparr>m_currentIdx := m_currentIdx d + 1\<rparr>)\<rparr>)))))))"

subsection \<open>release\<close>

text \<open>The loop of \<open>release\<close>. On a cyclic chain the C++ loop does not end; the result
  \<open>None\<close> stands for that.\<close>

partial_function (option) release_loop ::
    "addr option \<Rightarrow> TPoolAllocator \<Rightarrow> (fault + TPoolAllocator) option" where
  "release_loop current s =
     (case current of
        None \<Rightarrow> Some (Inr s)
      | Some p \<Rightarrow>
          (case pools s p of
             None \<Rightarrow> Some (Inl UseAfterFree)
           | Some c \<Rightarrow>
               release_loop (m_next c)
                 (s\<lparr>pools := (pools s)(p \<mapsto> c\<lparr>m_currentIdx := 0\<rparr>)\<rparr>)))"

definition release :: "TPoolAllocator \<Rightarrow> (fault + TPoolAllocator) option" where
  "release s =
     (case m_current s of
        None \<Rightarrow> Some (Inr s)
      | Some p \<Rightarrow>
          (case release_loop (m_first s) s of
             None \<Rightarrow> None
           | Some (Inl e) \<Rightarrow> Some (Inl e)
           | Some (Inr s1) \<Rightarrow>
               (case deref s1 (m_first s1) of
                  Inl e \<Rightarrow> Some (Inl e)
                | Inr c \<Rightarrow> Some (Inr (s1\<lparr>m_freeList := m_next c, m_current := m_first s1\<rparr>)))))"

subsection \<open>clear and reserve\<close>

partial_function (option) clear_loop ::
    "addr option \<Rightarrow> TPoolAllocator \<Rightarrow> (fault + TPoolAllocator) option" where
  "clear_loop nxt s =
     (case nxt of
        None \<Rightarrow> Some (Inr s)
      | Some current \<Rightarrow>
          (case pools s current of
             None \<Rightarrow> Some (Inl UseAfterFree)
           | Some c \<Rightarrow>
               (case delete_Pool current s of
                  Inl e \<Rightarrow> Some (Inl e)
                | Inr s1 \<Rightarrow> clear_loop (m_next c) s1)))"

definition clear :: "TPoolAllocator \<Rightarrow> (fault + TPoolAllocator) option" where
  "clear s =
     (case m_current s of
        None \<Rightarrow> Some (Inr s)
      | Some p \<Rightarrow>
          (case clear_loop (m_first s) s of
             None \<Rightarrow> None
           | Some (Inl e) \<Rightarrow> Some (Inl e)
           | Some (Inr s1) \<Rightarrow> Some (Inr (s1\<lparr>m_current := None, m_freeList := None\<rparr>))))"

definition reserve :: "size_t \<Rightarrow> TPoolAllocator \<Rightarrow> (fault + TPoolAllocator) option" where
  "reserve sz s =
     (case clear s of
        None \<Rightarrow> None
      | Some (Inl e) \<Rightarrow> Some (Inl e)
      | Some (Inr s1) \<Rightarrow>
          (case new_Pool sz None s1 of (p, s2) \<Rightarrow>
             (case new_array sz (s2\<lparr>m_first := Some p, m_current := Some p\<rparr>) of (b, s3) \<Rightarrow>
                (case m_current s3 of
                   None \<Rightarrow> Some (Inl NullDeref)
                 | Some q \<Rightarrow>
                     (case pools s3 q of
                        None \<Rightarrow> Some (Inl UseAfterFree)
                      | Some c \<Rightarrow>
                          Some (Inr (s3\<lparr>pools := (pools s3)(q \<mapsto>
                                            c\<lparr>m_pool := Some b, m_poolsize := sz\<rparr>),
                                        m_capacity := sz\<rparr>)))))))"

subsection \<open>Queries\<close>

definition capacity :: "TPoolAllocator \<Rightarrow> size_t" where
  "capacity s = m_capacity s"

definition freeMem :: "TPoolAllocator \<Rightarrow> fault + size_t" where
  "freeMem s =
     (case m_current s of
        None \<Rightarrow> Inr 0
      | Some p \<Rightarrow>
          (case pools s p of
             None \<Rightarrow> Inl UseAfterFree
           | Some c \<Rightarrow> Inr (m_poolsize c - m_currentIdx c)))"

text \<open>\<open>std::to_string\<close> on an unsigned value: its decimal digits.\<close>

fun to_string :: "nat \<Rightarrow> string" where
  "to_string n =
     (if n < 10 then [char_of (48 + n)]
      else to_string (n div 10) @ [char_of (48 + n mod 10)])"

definition dumpAllocations :: "TPoolAllocator \<Rightarrow> fault + string" where
  "dumpAllocations s =
     (case deref s (m_current s) of
        Inl e \<Rightarrow> Inl e
      | Inr c \<Rightarrow>
          Inr (''Number allocations = '' @ to_string (unat (m_currentIdx c)) @ [CHR 0x0A]))"

definition reset :: "TPoolAllocator \<Rightarrow> TPoolAllocator" where
  "reset s = s\<lparr>m_current := m_first s\<rparr>"

subsection \<open>A caller that allocates several objects in a row\<close>

text \<open>\<open>alloc_n k\<close> calls \<open>alloc()\<close> \<open>k\<close> times and collects the returned pointers in
  the order of the calls.\<close>

fun alloc_n :: "nat \<Rightarrow> TPoolAllocator \<Rightarrow> fault + (elem_ptr list \<times> TPoolAllocator)" where
  "alloc_n 0 s = Inr ([], s)"
| "alloc_n (Suc k) s =
     (case alloc s of
        Inl e \<Rightarrow> Inl e
      | Inr (r, s1) \<Rightarrow>
          (case alloc_n k s1 of
             Inl e \<Rightarrow> Inl e
           | Inr (rs, s2) \<Rightarrow> Inr (r # rs, s2)))"

subsection \<open>Chains of chunks in the store\<close>

text \<open>\<open>pool_path h x ps y\<close>: following \<open>m_next\<close> from the pointer \<open>x\<close> visits exactly the
  live chunks \<open>ps\<close>, in this order, and arrives at the pointer \<open>y\<close>. A chain is a path
  that ends in the null pointer.\<close>

fun pool_path ::
    "(addr \<Rightarrow> Pool option) \<Rightarrow> addr option \<Rightarrow> addr list \<Rightarrow> addr option \<Rightarrow> bool" where
  "pool_path h x [] y = (x = y)"
| "pool_path h x (p # ps) y =
     (x = Some p \<and> (case h p of None \<Rightarrow> False | Some c \<Rightarrow> pool_path h (m_next c) ps y))"

definition pool_chain :: "(addr \<Rightarrow> Pool option) \<Rightarrow> addr option \<Rightarrow> addr list \<Rightarrow> bool" where
  "pool_chain h x ps = pool_path h x ps None"

subsection \<open>The invariant of the pool\<close>

text \<open>Reading a chunk's fields through the store (a deleted chunk reads as 0 or null).\<close>

definition psize :: "(addr \<Rightarrow> Pool option) \<Rightarrow> addr \<Rightarrow> size_t" where
  "psize h p = (case h p of None \<Rightarrow> 0 | Some c \<Rightarrow> m_poolsize c)"

definition pidx :: "(addr \<Rightarrow> Pool option) \<Rightarrow> addr \<Rightarrow> size_t" where
  "pidx h p = (case h p of None \<Rightarrow> 0 | Some c \<Rightarrow> m_currentIdx c)"

definition pbuf :: "(addr \<Rightarrow> Pool option) \<Rightarrow> addr \<Rightarrow> addr option" where
  "pbuf h p = (case h p of None \<Rightarrow> None | Some c \<Rightarrow> m_pool c)"

text \<open>A chunk is intact when it is live and owns a live array of \<open>m_poolsize\<close> elements.\<close>

definition chunk_ok ::
    "(addr \<Rightarrow> Pool option) \<Rightarrow> (addr \<Rightarrow> size_t option) \<Rightarrow> addr \<Rightarrow> bool" where
  "chunk_ok h ar p =
     (case h p of
        None \<Rightarrow> False
      | Some c \<Rightarrow> (case m_pool c of None \<Rightarrow> False | Some b \<Rightarrow> ar b = Some (m_poolsize c)))"

text \<open>The arrays owned by the chunks \<open>ps\<close>.\<close>

definition bufs_of :: "(addr \<Rightarrow> Pool option) \<Rightarrow> addr list \<Rightarrow> addr set" where
  "bufs_of h ps = {b. \<exists>p\<in>set ps. pbuf h p = Some b}"

text \<open>The store after the loop of \<open>release\<close> has set the cursor of each chunk in \<open>ps\<close>
  to 0.\<close>

definition zero_cursors ::
    "addr list \<Rightarrow> (addr \<Rightarrow> Pool option) \<Rightarrow> (addr \<Rightarrow> Pool option)" where
  "zero_cursors ps h =
     (\<lambda>a. if a \<in> set ps then map_option (\<lambda>c. c\<lparr>m_currentIdx := 0\<rparr>) (h a) else h a)"

text \<open>No object lives at or above the next unused address.\<close>

definition heap_bounded :: "TPoolAllocator \<Rightarrow> bool" where
  "heap_bounded s = (\<forall>a. fresh s \<le> a \<longrightarrow> pools s a = None \<and> arrays s a = None)"

text \<open>
  \<open>layout s xs c ys fl\<close>: the primary chain from \<open>m_first\<close> is \<open>xs @ c # ys @ fl\<close>, where
  \<open>c\<close> is the active chunk and \<open>fl\<close> is the free list, a tail of the same chain that starts
  after the active chunk and whose cursors are 0. Along the chain the chunk sizes do
  not decrease, every chunk is intact, and no two chunks share an array.
\<close>

definition layout ::
    "TPoolAllocator \<Rightarrow> addr list \<Rightarrow> addr \<Rightarrow> addr list \<Rightarrow> addr list \<Rightarrow> bool" where
  "layout s xs c ys fl =
    (pool_chain (pools s) (m_first s) (xs @ c # ys @ fl) \<and>
     m_current s = Some c \<and>
     m_freeList s = (case fl of [] \<Rightarrow> None | f # fs \<Rightarrow> Some f) \<and>
     (\<forall>p\<in>set fl. pidx (pools s) p = 0) \<and>
     sorted (map (psize (pools s)) (xs @ c # ys @ fl)) \<and>
     (\<forall>p\<in>set (xs @ c # ys @ fl). chunk_ok (pools s) (arrays s) p) \<and>
     distinct (map (pbuf (pools s)) (xs @ c # ys @ fl)) \<and>
     heap_bounded s)"

text \<open>
  The invariant: the pool is empty (no active chunk, no free list; this is the state
  after the default constructor and after \<open>clear\<close>), or it has a layout.
\<close>

definition pool_inv :: "TPoolAllocator \<Rightarrow> bool" where
  "pool_inv s =
    ((m_current s = None \<and> m_freeList s = None \<and> heap_bounded s) \<or>
     (\<exists>xs c ys fl. layout s xs c ys fl))"

text \<open>Every live chunk has room for at least one element and a cursor within its size.\<close>

definition cursors_ok :: "TPoolAllocator \<Rightarrow> bool" where
  "cursors_ok s =
     (\<forall>p d. pools s p = Some d \<longrightarrow> 0 < m_poolsize d \<and> m_currentIdx d \<le> m_poolsize d)"

subsection \<open>States a caller can reach\<close>

text \<open>The active chunk pointer and the head pointer both hold the address of a deleted
  chunk.\<close>

definition dangling :: "TPoolAllocator \<Rightarrow> bool" where
  "dangling s =
     (case m_current s of None \<Rightarrow> False | Some p \<Rightarrow> pools s p = None \<and> m_first s = Some p)"

text \<open>If there is no active chunk, the head pointer is null or the address of a deleted
  chunk.\<close>

definition first_dead :: "TPoolAllocator \<Rightarrow> bool" where
  "first_dead s =
     (m_current s = None \<longrightarrow> (case m_first s of None \<Rightarrow> True | Some p \<Rightarrow> pools s p = None))"

text \<open>The states reached from a constructor by calls of the public operations that
  return without a fault.\<close>

inductive reachable :: "TPoolAllocator \<Rightarrow> bool" where
  r_default: "reachable TPoolAllocator_default"
| r_numItems: "reachable (TPoolAllocator_numItems n)"
| r_alloc: "reachable s \<Longrightarrow> alloc s = Inr (r, s') \<Longrightarrow> reachable s'"
| r_release: "reachable s \<Longrightarrow> release s = Some (Inr s') \<Longrightarrow> reachable s'"
| r_reserve: "reachable s \<Longrightarrow> reserve m s = Some (Inr s') \<Longrightarrow> reachable s'"
| r_clear: "reachable s \<Longrightarrow> clear s = Some (Inr s') \<Longrightarrow> reachable s'"
| r_resize: "reachable s \<Longrightarrow> resize g s = Inr s' \<Longrightarrow> reachable s'"
| r_reset: "reachable s \<Longrightarrow> reachable (reset s)"


section \<open>Facts about chains\<close>

lemma pool_path_Cons:
  "pool_path h x (p # ps) y = (x = Some p \<and> (\<exists>c. h p = Some c \<and> pool_path h (m_next c) ps y))"
  by (cases "h p") auto

lemma pool_path_append:
  "pool_path h x (ps @ qs) z = (\<exists>y. pool_path h x ps y \<and> pool_path h y qs z)"
  by (induction ps arbitrary: x) (auto simp: pool_path_Cons simp del: pool_path.simps(2))

lemma pool_chain_Nil [simp]: "pool_chain h x [] = (x = None)"
  by (simp add: pool_chain_def)

lemma pool_chain_Cons:
  "pool_chain h x (p # ps) = (x = Some p \<and> (\<exists>c. h p = Some c \<and> pool_chain h (m_next c) ps))"
  by (simp add: pool_chain_def pool_path_Cons del: pool_path.simps(2))

lemma pool_chain_None [simp]: "pool_chain h None ps = (ps = [])"
  by (cases ps) (auto simp: pool_chain_def)

lemma pool_chain_unique: "pool_chain h x ps \<Longrightarrow> pool_chain h x qs \<Longrightarrow> ps = qs"
proof (induction ps arbitrary: x qs)
  case Nil
  then show ?case by simp
next
  case (Cons p ps)
  then obtain c where c: "x = Some p" "h p = Some c" "pool_chain h (m_next c) ps"
    by (auto simp: pool_chain_Cons)
  with Cons.prems(2) obtain qs' where "qs = p # qs'" "pool_chain h (m_next c) qs'"
    by (cases qs) (auto simp: pool_chain_Cons)
  with Cons.IH c show ?case by blast
qed

lemma pool_chain_append:
  "pool_chain h x (ps @ qs) = (\<exists>y. pool_path h x ps y \<and> pool_chain h y qs)"
  by (simp add: pool_chain_def pool_path_append)

lemma pool_chain_head_notin:
  assumes "h p = Some c" "pool_chain h (m_next c) ps"
  shows "p \<notin> set ps"
proof
  assume "p \<in> set ps"
  then obtain us vs where ps: "ps = us @ p # vs"
    by (auto simp: in_set_conv_decomp)
  with assms(2) have "pool_chain h (Some p) (p # vs)"
    by (auto simp: pool_chain_append pool_chain_Cons)
  with assms(1) have "pool_chain h (m_next c) vs"
    by (simp add: pool_chain_Cons)
  with assms(2) have "ps = vs"
    by (rule pool_chain_unique)
  with ps show False by simp
qed

lemma pool_chain_distinct: "pool_chain h x ps \<Longrightarrow> distinct ps"
  by (induction ps arbitrary: x) (auto simp: pool_chain_Cons dest: pool_chain_head_notin)

lemma pool_path_cong:
  "(\<And>a. a \<in> set ps \<Longrightarrow> map_option m_next (h' a) = map_option m_next (h a)) \<Longrightarrow>
   pool_path h' x ps y = pool_path h x ps y"
proof (induction ps arbitrary: x)
  case Nil
  show ?case by simp
next
  case (Cons p ps)
  have eq: "map_option m_next (h' p) = map_option m_next (h p)"
    by (rule Cons.prems) simp
  have IH: "\<And>u. pool_path h' u ps y = pool_path h u ps y"
    by (rule Cons.IH) (simp add: Cons.prems)
  show ?case
  proof (cases "h p")
    case None
    with eq have "h' p = None" by simp
    with None show ?thesis by simp
  next
    case (Some c)
    with eq obtain c' where "h' p = Some c'" "m_next c' = m_next c" by auto
    with Some IH show ?thesis by simp
  qed
qed

lemma pool_path_upd_other:
  "a \<notin> set ps \<Longrightarrow> pool_path (h(a := v)) x ps y = pool_path h x ps y"
  by (rule pool_path_cong) auto

lemma pool_path_upd_same_next:
  "h a = Some c \<Longrightarrow> m_next c' = m_next c \<Longrightarrow>
   pool_path (h(a \<mapsto> c')) x ps y = pool_path h x ps y"
  by (rule pool_path_cong) auto


section \<open>The operations keep the invariant\<close>

lemma release_loop_chain:
  "pool_chain (pools s) x ps \<Longrightarrow>
   release_loop x s = Some (Inr (s\<lparr>pools := zero_cursors ps (pools s)\<rparr>))"
proof (induction ps arbitrary: x s)
  case Nil
  then show ?case
    by (simp add: release_loop.simps zero_cursors_def)
next
  case (Cons p ps)
  then obtain c where c: "x = Some p" "pools s p = Some c" "pool_chain (pools s) (m_next c) ps"
    by (auto simp: pool_chain_Cons)
  let ?s = "s\<lparr>pools := (pools s)(p \<mapsto> c\<lparr>m_currentIdx := 0\<rparr>)\<rparr>"
  have notin: "p \<notin> set ps"
    using c(2,3) by (rule pool_chain_head_notin)
  then have "pool_chain (pools ?s) (m_next c) ps"
    using c(3) by (simp add: pool_chain_def pool_path_upd_other)
  then have "release_loop (m_next c) ?s = Some (Inr (?s\<lparr>pools := zero_cursors ps (pools ?s)\<rparr>))"
    by (rule Cons.IH)
  moreover have "zero_cursors ps (pools ?s) = zero_cursors (p # ps) (pools s)"
    using notin c(2) by (auto simp: zero_cursors_def fun_eq_iff)
  ultimately show ?case
    using c(1,2) by (subst release_loop.simps) simp
qed

lemma clear_loop_chain:
  "pool_chain (pools s) x ps \<Longrightarrow>
   \<forall>p\<in>set ps. chunk_ok (pools s) (arrays s) p \<Longrightarrow>
   distinct (map (pbuf (pools s)) ps) \<Longrightarrow>
   clear_loop x s =
     Some (Inr (s\<lparr>arrays := arrays s |` (- bufs_of (pools s) ps),
                  pools := pools s |` (- set ps)\<rparr>))"
proof (induction ps arbitrary: x s)
  case Nil
  then show ?case
    by (simp add: clear_loop.simps bufs_of_def)
next
  case (Cons p ps)
  from Cons.prems(1) obtain c where
    c: "x = Some p" "pools s p = Some c" "pool_chain (pools s) (m_next c) ps"
    by (auto simp: pool_chain_Cons)
  from Cons.prems(2) c(2) obtain b where
    b: "m_pool c = Some b" "arrays s b = Some (m_poolsize c)"
    by (auto simp: chunk_ok_def split: option.splits)
  let ?s = "s\<lparr>arrays := (arrays s)(b := None), pools := (pools s)(p := None)\<rparr>"
  have del: "delete_Pool p s = Inr ?s"
    using c(2) b by (simp add: delete_Pool_def)
  have notin: "p \<notin> set ps"
    using c(2,3) by (rule pool_chain_head_notin)
  have bufs: "\<forall>q\<in>set ps. pbuf (pools ?s) q = pbuf (pools s) q"
    using notin by (auto simp: pbuf_def)
  have pb: "pbuf (pools s) p = Some b"
    using c(2) b(1) by (simp add: pbuf_def)
  have "pbuf (pools s) p \<notin> pbuf (pools s) ` set ps"
    using Cons.prems(3) by simp
  with pb have bnot: "\<forall>q\<in>set ps. pbuf (pools s) q \<noteq> Some b"
    by force
  have 1: "pool_chain (pools ?s) (m_next c) ps"
    using c(3) notin by (simp add: pool_chain_def pool_path_upd_other)
  have 2: "\<forall>q\<in>set ps. chunk_ok (pools ?s) (arrays ?s) q"
  proof
    fix q assume q: "q \<in> set ps"
    with Cons.prems(2) have "chunk_ok (pools s) (arrays s) q" by simp
    moreover from q notin have "q \<noteq> p" by auto
    moreover from q bnot have "pbuf (pools s) q \<noteq> Some b" by simp
    ultimately show "chunk_ok (pools ?s) (arrays ?s) q"
      by (auto simp: chunk_ok_def pbuf_def split: option.splits)
  qed
  have 3: "distinct (map (pbuf (pools ?s)) ps)"
    using Cons.prems(3) bufs by (simp cong: map_cong)
  have IH: "clear_loop (m_next c) ?s =
     Some (Inr (?s\<lparr>arrays := arrays ?s |` (- bufs_of (pools ?s) ps),
                  pools := pools ?s |` (- set ps)\<rparr>))"
    using 1 2 3 by (rule Cons.IH)
  have e1: "pools ?s |` (- set ps) = pools s |` (- set (p # ps))"
    by (auto simp: restrict_map_def fun_eq_iff)
  have e2: "bufs_of (pools ?s) ps = bufs_of (pools s) ps"
    using bufs by (auto simp: bufs_of_def)
  have e3: "arrays ?s |` (- bufs_of (pools s) ps) = arrays s |` (- bufs_of (pools s) (p # ps))"
    using pb by (auto simp: restrict_map_def fun_eq_iff bufs_of_def)
  have "clear_loop x s = clear_loop (m_next c) ?s"
    using c(1,2) del by (subst clear_loop.simps) simp
  also note IH
  also have "?s\<lparr>arrays := arrays ?s |` (- bufs_of (pools ?s) ps),
                pools := pools ?s |` (- set ps)\<rparr> =
             s\<lparr>arrays := arrays s |` (- bufs_of (pools s) (p # ps)),
               pools := pools s |` (- set (p # ps))\<rparr>"
    unfolding e1 e2 e3 by simp
  finally show ?case .
qed

lemma psize_upd: "h a = Some d \<Longrightarrow> m_poolsize d' = m_poolsize d \<Longrightarrow> psize (h(a \<mapsto> d')) = psize h"
  by (auto simp: psize_def fun_eq_iff)

lemma pbuf_upd: "h a = Some d \<Longrightarrow> m_pool d' = m_pool d \<Longrightarrow> pbuf (h(a \<mapsto> d')) = pbuf h"
  by (auto simp: pbuf_def fun_eq_iff)

lemma chunk_ok_upd:
  "h a = Some d \<Longrightarrow> m_poolsize d' = m_poolsize d \<Longrightarrow> m_pool d' = m_pool d \<Longrightarrow>
   chunk_ok (h(a \<mapsto> d')) ar = chunk_ok h ar"
  by (auto simp: chunk_ok_def fun_eq_iff split: option.splits)

lemma pidx_upd_other: "a \<noteq> p \<Longrightarrow> pidx (h(a := v)) p = pidx h p"
  by (simp add: pidx_def)

lemma pool_chain_upd_same_next:
  "h a = Some d \<Longrightarrow> m_next d' = m_next d \<Longrightarrow> pool_chain (h(a \<mapsto> d')) x ps = pool_chain h x ps"
  by (simp add: pool_chain_def pool_path_upd_same_next)

lemma layout_distinct: "layout s xs c ys fl \<Longrightarrow> distinct (xs @ c # ys @ fl)"
  unfolding layout_def by (blast dest: pool_chain_distinct)

lemma layout_bump:
  assumes "layout s xs c ys fl" "pools s c = Some d"
  shows "layout (s\<lparr>pools := (pools s)(c \<mapsto> d\<lparr>m_currentIdx := i\<rparr>)\<rparr>) xs c ys fl"
proof -
  let ?h = "(pools s)(c \<mapsto> d\<lparr>m_currentIdx := i\<rparr>)"
  have d: "distinct (xs @ c # ys @ fl)"
    using assms(1) by (rule layout_distinct)
  have 1: "psize ?h = psize (pools s)"
    using assms(2) by (rule psize_upd) simp
  have 2: "pbuf ?h = pbuf (pools s)"
    using assms(2) by (rule pbuf_upd) simp
  have 3: "chunk_ok ?h (arrays s) = chunk_ok (pools s) (arrays s)"
    using assms(2) by (rule chunk_ok_upd) simp_all
  have 4: "pool_chain ?h (m_first s) (xs @ c # ys @ fl) =
           pool_chain (pools s) (m_first s) (xs @ c # ys @ fl)"
    using assms(2) by (rule pool_chain_upd_same_next) simp
  have 5: "\<forall>p\<in>set fl. pidx ?h p = pidx (pools s) p"
    using d by (auto simp: pidx_def)
  have 6: "heap_bounded (s\<lparr>pools := ?h\<rparr>)"
    using assms by (auto simp: layout_def heap_bounded_def)
  show ?thesis
    using assms(1) 5 6 unfolding layout_def by (simp add: 1 2 3 4)
qed

lemma layout_first_Some: "layout s xs c ys fl \<Longrightarrow> m_first s \<noteq> None"
  by (cases xs) (auto simp: layout_def pool_chain_Cons)

lemma layout_live: "layout s xs c ys fl \<Longrightarrow> p \<in> set (xs @ c # ys @ fl) \<Longrightarrow> \<exists>d. pools s p = Some d"
  unfolding layout_def by (auto simp: chunk_ok_def split: option.splits)

lemma pool_chain_mid:
  "pool_chain h x (ps @ q # qs) \<Longrightarrow>
   pool_path h x ps (Some q) \<and> (\<exists>d. h q = Some d \<and> pool_chain h (m_next d) qs)"
  by (auto simp: pool_chain_append pool_chain_Cons)

lemma pool_chain_start:
  "pool_chain h x qs \<Longrightarrow> x = (case qs of [] \<Rightarrow> None | q # qs' \<Rightarrow> Some q)"
  by (cases qs) (auto simp: pool_chain_Cons)

lemma resize_grow_reuse:
  assumes lay: "layout s xs c ys (f # fl)" and c: "pools s c = Some d"
  defines "s' \<equiv> s\<lparr>m_freeList := (case fl of [] \<Rightarrow> None | f' # fs \<Rightarrow> Some f'),
                    pools := (pools s)(c \<mapsto> d\<lparr>m_next := Some f\<rparr>),
                    m_current := Some f\<rparr>"
  shows "resize_grow g s = Inr s'" and "layout s' (xs @ [c]) f [] fl"
proof -
  have dist: "distinct (xs @ c # ys @ f # fl)"
    using lay by (rule layout_distinct)
  have chain: "pool_chain (pools s) (m_first s) ((xs @ c # ys) @ f # fl)"
    using lay by (simp add: layout_def)
  from pool_chain_mid [OF chain] obtain cf where
    cf: "pools s f = Some cf" "pool_chain (pools s) (m_next cf) fl"
      and pre: "pool_path (pools s) (m_first s) (xs @ c # ys) (Some f)"
    by blast
  have nf: "m_next cf = (case fl of [] \<Rightarrow> None | f' # fs \<Rightarrow> Some f')"
    using cf(2) by (rule pool_chain_start)
  have "m_first s \<noteq> None"
    using lay by (rule layout_first_Some)
  then obtain p0 where first: "m_first s = Some p0" by auto
  have cur: "m_current s = Some c" and free: "m_freeList s = Some f"
    using lay by (simp_all add: layout_def)
  show res: "resize_grow g s = Inr s'"
    using first cur free cf(1) c nf
    by (simp add: resize_grow_def getFreePool_def s'_def)
  let ?h = "(pools s)(c \<mapsto> d\<lparr>m_next := Some f\<rparr>)"
  have 1: "psize ?h = psize (pools s)"
    using c by (rule psize_upd) simp
  have 2: "pbuf ?h = pbuf (pools s)"
    using c by (rule pbuf_upd) simp
  have 3: "chunk_ok ?h (arrays s) = chunk_ok (pools s) (arrays s)"
    using c by (rule chunk_ok_upd) simp_all
  have pxs: "pool_path (pools s) (m_first s) xs (Some c)"
    using pre by (auto simp: pool_path_append pool_path_Cons simp del: pool_path.simps(2))
  have "c \<notin> set xs" using dist by auto
  then have pxs': "pool_path ?h (m_first s) xs (Some c)"
    using pxs by (simp add: pool_path_upd_other)
  have "c \<notin> set fl" using dist by auto
  then have "pool_chain ?h (m_next cf) fl"
    using cf(2) by (simp add: pool_chain_def pool_path_upd_other)
  moreover have "c \<noteq> f" using dist by auto
  ultimately have "pool_chain ?h (Some c) (c # f # fl)"
    using cf(1) by (simp add: pool_chain_Cons)
  with pxs' have 4: "pool_chain ?h (m_first s) (xs @ c # f # fl)"
    by (auto simp: pool_chain_append)
  have 5: "\<forall>p\<in>set fl. pidx ?h p = pidx (pools s) p"
    using dist by (auto simp: pidx_def)
  have 6: "heap_bounded s'"
    using lay c by (auto simp: layout_def heap_bounded_def s'_def)
  have 7: "sorted (map (psize (pools s)) (xs @ c # f # fl))"
    using lay by (auto simp: layout_def sorted_append)
  have 8: "distinct (map (pbuf (pools s)) (xs @ c # f # fl))"
    using lay by (auto simp: layout_def)
  have 9: "\<forall>p\<in>set (xs @ c # f # fl). chunk_ok (pools s) (arrays s) p"
    using lay by (auto simp: layout_def)
  have 10: "\<forall>p\<in>set fl. pidx (pools s) p = 0"
    using lay by (auto simp: layout_def)
  show "layout s' (xs @ [c]) f [] fl"
    unfolding layout_def using 4 5 6 7 8 9 10 by (simp add: s'_def 1 2 3)
qed

lemma heap_bounded_pool_less: "heap_bounded s \<Longrightarrow> pools s p = Some d \<Longrightarrow> p < fresh s"
  unfolding heap_bounded_def by (metis not_le option.distinct(1))

lemma heap_bounded_array_less: "heap_bounded s \<Longrightarrow> arrays s b = Some n \<Longrightarrow> b < fresh s"
  unfolding heap_bounded_def by (metis not_le option.distinct(1))

lemma chunk_ok_buf_less:
  "heap_bounded s \<Longrightarrow> chunk_ok (pools s) (arrays s) p \<Longrightarrow>
   \<exists>b. pbuf (pools s) p = Some b \<and> b < fresh s \<and> p < fresh s"
  by (auto simp: chunk_ok_def pbuf_def split: option.splits
      dest: heap_bounded_array_less heap_bounded_pool_less)

lemma resize_grow_fresh:
  assumes lay: "layout s xs c ys []" and c: "pools s c = Some d" and le: "m_poolsize d \<le> g"
  defines "s' \<equiv> s\<lparr>arrays := (arrays s)(fresh s \<mapsto> g),
                    pools := (pools s)
                      (Suc (fresh s) \<mapsto>
                         \<lparr>m_poolsize = g, m_pool = Some (fresh s), m_currentIdx = 0,
                          m_next = None\<rparr>,
                       c \<mapsto> d\<lparr>m_next := Some (Suc (fresh s))\<rparr>),
                    fresh := Suc (Suc (fresh s)),
                    m_capacity := m_capacity s + g,
                    m_current := Some (Suc (fresh s))\<rparr>"
  shows "resize_grow g s = Inr s'" and "layout s' (xs @ [c]) (Suc (fresh s)) [] []"
proof -
  let ?p = "Suc (fresh s)"
  let ?h = "pools s'" and ?ar = "arrays s'"
  have hb: "heap_bounded s"
    using lay by (simp add: layout_def)
  have dist: "distinct (xs @ c # ys)"
    using layout_distinct [OF lay] by simp
  have "m_first s \<noteq> None"
    using lay by (rule layout_first_Some)
  then obtain p0 where first: "m_first s = Some p0" by auto
  have cur: "m_current s = Some c" and free: "m_freeList s = None"
    using lay by (simp_all add: layout_def)
  have cp: "c < fresh s"
    using hb c by (rule heap_bounded_pool_less)
  show "resize_grow g s = Inr s'"
    using first cur free c cp
    by (simp add: resize_grow_def getFreePool_def new_Pool_def new_array_def s'_def)
  have old: "\<forall>q\<in>set (xs @ [c]). chunk_ok (pools s) (arrays s) q"
    using lay by (simp add: layout_def)
  have oldb: "\<forall>q\<in>set (xs @ [c]). \<exists>b. pbuf (pools s) q = Some b \<and> b < fresh s \<and> q < fresh s"
    using old hb by (blast dest: chunk_ok_buf_less)
  have same_size: "\<forall>q\<in>set (xs @ [c]). psize ?h q = psize (pools s) q"
    using oldb by (auto simp: psize_def s'_def c)
  have same_buf: "\<forall>q\<in>set (xs @ [c]). pbuf ?h q = pbuf (pools s) q"
    using oldb by (auto simp: pbuf_def s'_def c)
  have chain: "pool_chain (pools s) (m_first s) (xs @ c # ys)"
    using lay by (simp add: layout_def)
  have pxs: "pool_path (pools s) (m_first s) xs (Some c)"
    using pool_chain_mid [OF chain] by simp
  have "\<forall>q\<in>set xs. map_option m_next (?h q) = map_option m_next (pools s q)"
    using oldb dist by (auto simp: s'_def)
  then have "pool_path ?h (m_first s) xs (Some c) = pool_path (pools s) (m_first s) xs (Some c)"
    by (intro pool_path_cong) simp
  with pxs have pxs': "pool_path ?h (m_first s) xs (Some c)" by simp
  have "pool_chain ?h (Some c) [c, ?p]"
    using cp by (simp add: pool_chain_Cons s'_def)
  with pxs' have 1: "pool_chain ?h (m_first s') (xs @ c # [?p])"
    by (auto simp: pool_chain_append s'_def)
  have sz_new: "psize ?h ?p = g"
    using cp by (simp add: psize_def s'_def)
  have sorted_old: "sorted (map (psize (pools s)) (xs @ [c]))"
    using lay by (auto simp: layout_def sorted_append)
  have "map (psize ?h) (xs @ [c]) = map (psize (pools s)) (xs @ [c])"
    using same_size by (simp cong: map_cong)
  moreover have "\<forall>q\<in>set (xs @ [c]). psize (pools s) q \<le> g"
    using sorted_old le c by (auto simp: sorted_append psize_def)
  ultimately have 2: "sorted (map (psize ?h) ((xs @ [c]) @ [?p]))"
    using sorted_old sz_new
    by (simp only: map_append sorted_append) auto
  have 3: "\<forall>q\<in>set ((xs @ [c]) @ [?p]). chunk_ok ?h ?ar q"
  proof
    fix q assume "q \<in> set ((xs @ [c]) @ [?p])"
    then consider "q = ?p" | "q \<in> set (xs @ [c])" by auto
    then show "chunk_ok ?h ?ar q"
    proof cases
      case 1
      then show ?thesis using cp by (simp add: chunk_ok_def s'_def)
    next
      case 2
      with old oldb have "chunk_ok (pools s) (arrays s) q"
        and "\<exists>b. pbuf (pools s) q = Some b \<and> b < fresh s \<and> q < fresh s"
        by blast+
      then show ?thesis
        using c by (auto simp: chunk_ok_def pbuf_def s'_def split: option.splits)
    qed
  qed
  have buf_new: "pbuf ?h ?p = Some (fresh s)"
    using cp by (simp add: pbuf_def s'_def)
  have dist_old: "distinct (map (pbuf (pools s)) (xs @ [c]))"
    using lay by (auto simp: layout_def)
  have "map (pbuf ?h) (xs @ [c]) = map (pbuf (pools s)) (xs @ [c])"
    using same_buf by (simp cong: map_cong)
  moreover have "Some (fresh s) \<notin> pbuf (pools s) ` set (xs @ [c])"
    using oldb by force
  ultimately have 4: "distinct (map (pbuf ?h) ((xs @ [c]) @ [?p]))"
    using dist_old buf_new by (simp only: map_append distinct_append) auto
  have 5: "heap_bounded s'"
    using hb cp by (auto simp: heap_bounded_def s'_def)
  have 6: "m_current s' = Some ?p" "m_freeList s' = None"
    using free by (simp_all add: s'_def)
  show "layout s' (xs @ [c]) ?p [] []"
    unfolding layout_def using 1 2 3 4 5 6 by simp
qed

lemma resize_grow_empty:
  assumes "m_first s = None"
  shows "resize_grow g s =
     Inr (s\<lparr>arrays := (arrays s)(fresh s \<mapsto> g),
             pools := (pools s)
               (Suc (fresh s) \<mapsto>
                  \<lparr>m_poolsize = g, m_pool = Some (fresh s), m_currentIdx = 0, m_next = None\<rparr>),
             fresh := Suc (Suc (fresh s)),
             m_first := Some (Suc (fresh s)),
             m_current := Some (Suc (fresh s)),
             m_capacity := m_capacity s + g\<rparr>)"
  using assms by (simp add: resize_grow_def new_Pool_def new_array_def deref_def)

lemma layout_single:
  assumes "heap_bounded s"
  shows "layout (s\<lparr>arrays := (arrays s)(fresh s \<mapsto> g),
             pools := (pools s)
               (Suc (fresh s) \<mapsto>
                  \<lparr>m_poolsize = g, m_pool = Some (fresh s), m_currentIdx = 0, m_next = None\<rparr>),
             fresh := Suc (Suc (fresh s)),
             m_first := Some (Suc (fresh s)),
             m_current := Some (Suc (fresh s)),
             m_freeList := None,
             m_capacity := k\<rparr>) [] (Suc (fresh s)) [] []"
  using assms
  by (auto simp: layout_def pool_chain_Cons psize_def chunk_ok_def pbuf_def heap_bounded_def)

lemma layout_current:
  "layout s xs c ys fl \<Longrightarrow>
   \<exists>d b. pools s c = Some d \<and> m_pool d = Some b \<and> arrays s b = Some (m_poolsize d)"
  unfolding layout_def by (auto simp: chunk_ok_def split: option.splits)

lemma alloc_no_growth:
  assumes lay: "layout s xs c ys fl" and c: "pools s c = Some d"
    and b: "m_pool d = Some b" and nf: "m_currentIdx d \<noteq> m_poolsize d"
  defines "s' \<equiv> s\<lparr>pools := (pools s)(c \<mapsto> d\<lparr>m_currentIdx := m_currentIdx d + 1\<rparr>)\<rparr>"
  shows "alloc s = Inr (Some (b, m_currentIdx d), s')" and "layout s' xs c ys fl"
proof -
  have cur: "m_current s = Some c"
    using lay by (simp add: layout_def)
  show "alloc s = Inr (Some (b, m_currentIdx d), s')"
    using cur c b nf by (simp add: alloc_def s'_def)
  show "layout s' xs c ys fl"
    unfolding s'_def using lay c by (rule layout_bump)
qed

lemma alloc_reuse:
  assumes lay: "layout s xs c ys (f # fl)" and c: "pools s c = Some d"
    and full: "m_currentIdx d = m_poolsize d"
    and f: "pools s f = Some cf" and b: "m_pool cf = Some b"
  defines "s' \<equiv> s\<lparr>m_freeList := (case fl of [] \<Rightarrow> None | f' # fs \<Rightarrow> Some f'),
                    pools := (pools s)(c \<mapsto> d\<lparr>m_next := Some f\<rparr>,
                                       f \<mapsto> cf\<lparr>m_currentIdx := 1\<rparr>),
                    m_current := Some f\<rparr>"
  shows "alloc s = Inr (Some (b, 0), s')" and "layout s' (xs @ [c]) f [] fl"
proof -
  let ?s1 = "s\<lparr>m_freeList := (case fl of [] \<Rightarrow> None | f' # fs \<Rightarrow> Some f'),
                pools := (pools s)(c \<mapsto> d\<lparr>m_next := Some f\<rparr>),
                m_current := Some f\<rparr>"
  have g: "resize_grow (m_poolsize d) s = Inr ?s1" and l1: "layout ?s1 (xs @ [c]) f [] fl"
    using resize_grow_reuse [OF lay c] by simp_all
  have cur: "m_current s = Some c"
    using lay by (simp add: layout_def)
  have "distinct (xs @ c # ys @ f # fl)"
    using lay by (rule layout_distinct)
  then have ne: "f \<noteq> c" by auto
  have "pidx (pools s) f = 0"
    using lay by (simp add: layout_def)
  with f have i0: "m_currentIdx cf = 0"
    by (simp add: pidx_def)
  have f1: "pools ?s1 f = Some cf"
    using f ne by simp
  show "alloc s = Inr (Some (b, 0), s')"
    using cur c full g f ne b i0
    by (simp add: alloc_def resize_def s'_def)
  have "layout (?s1\<lparr>pools := (pools ?s1)(f \<mapsto> cf\<lparr>m_currentIdx := 1\<rparr>)\<rparr>) (xs @ [c]) f [] fl"
    using l1 f1 by (rule layout_bump)
  moreover have "?s1\<lparr>pools := (pools ?s1)(f \<mapsto> cf\<lparr>m_currentIdx := 1\<rparr>)\<rparr> = s'"
    by (cases s) (simp add: s'_def)
  ultimately show "layout s' (xs @ [c]) f [] fl"
    by simp
qed

lemma alloc_fresh:
  assumes lay: "layout s xs c ys []" and c: "pools s c = Some d"
    and full: "m_currentIdx d = m_poolsize d"
  defines "s' \<equiv> s\<lparr>arrays := (arrays s)(fresh s \<mapsto> m_poolsize d),
                    pools := (pools s)
                      (c \<mapsto> d\<lparr>m_next := Some (Suc (fresh s))\<rparr>,
                       Suc (fresh s) \<mapsto>
                         \<lparr>m_poolsize = m_poolsize d, m_pool = Some (fresh s), m_currentIdx = 1,
                          m_next = None\<rparr>),
                    fresh := Suc (Suc (fresh s)),
                    m_capacity := m_capacity s + m_poolsize d,
                    m_current := Some (Suc (fresh s))\<rparr>"
  shows "alloc s = Inr (Some (fresh s, 0), s')" and "layout s' (xs @ [c]) (Suc (fresh s)) [] []"
proof -
  let ?p = "Suc (fresh s)"
  let ?s1 = "s\<lparr>arrays := (arrays s)(fresh s \<mapsto> m_poolsize d),
                    pools := (pools s)
                      (?p \<mapsto>
                         \<lparr>m_poolsize = m_poolsize d, m_pool = Some (fresh s), m_currentIdx = 0,
                          m_next = None\<rparr>,
                       c \<mapsto> d\<lparr>m_next := Some ?p\<rparr>),
                    fresh := Suc (Suc (fresh s)),
                    m_capacity := m_capacity s + m_poolsize d,
                    m_current := Some ?p\<rparr>"
  have g: "resize_grow (m_poolsize d) s = Inr ?s1" and l1: "layout ?s1 (xs @ [c]) ?p [] []"
    using resize_grow_fresh [OF lay c order_refl] by simp_all
  have cur: "m_current s = Some c"
    using lay by (simp add: layout_def)
  have "heap_bounded s"
    using lay by (simp add: layout_def)
  then have "c < fresh s"
    using c by (rule heap_bounded_pool_less)
  then have ne: "c \<noteq> ?p" by simp
  have p1: "pools ?s1 ?p =
      Some \<lparr>m_poolsize = m_poolsize d, m_pool = Some (fresh s), m_currentIdx = 0, m_next = None\<rparr>"
    using ne by simp
  have upd: "(pools s)(?p \<mapsto> \<lparr>m_poolsize = m_poolsize d, m_pool = Some (fresh s),
                 m_currentIdx = 0, m_next = None\<rparr>,
               c \<mapsto> d\<lparr>m_next := Some ?p\<rparr>,
               ?p \<mapsto> \<lparr>m_poolsize = m_poolsize d, m_pool = Some (fresh s),
                 m_currentIdx = 1, m_next = None\<rparr>) =
             (pools s)(c \<mapsto> d\<lparr>m_next := Some ?p\<rparr>,
               ?p \<mapsto> \<lparr>m_poolsize = m_poolsize d, m_pool = Some (fresh s),
                 m_currentIdx = 1, m_next = None\<rparr>)"
    using ne by (auto simp: fun_eq_iff)
  show "alloc s = Inr (Some (fresh s, 0), s')"
    using cur c full g ne upd
    by (simp add: alloc_def resize_def s'_def)
  have "layout (?s1\<lparr>pools := (pools ?s1)(?p \<mapsto>
            \<lparr>m_poolsize = m_poolsize d, m_pool = Some (fresh s), m_currentIdx = 0,
             m_next = None\<rparr>\<lparr>m_currentIdx := 1\<rparr>)\<rparr>) (xs @ [c]) ?p [] []"
    using l1 p1 by (rule layout_bump)
  moreover have "?s1\<lparr>pools := (pools ?s1)(?p \<mapsto>
            \<lparr>m_poolsize = m_poolsize d, m_pool = Some (fresh s), m_currentIdx = 0,
             m_next = None\<rparr>\<lparr>m_currentIdx := 1\<rparr>)\<rparr> = s'"
    using upd by (cases s) (simp add: s'_def)
  ultimately show "layout s' (xs @ [c]) ?p [] []"
    by simp
qed

lemma alloc_preserves_inv:
  assumes "pool_inv s"
  shows "\<exists>r s'. alloc s = Inr (r, s') \<and> pool_inv s'"
proof (cases "m_current s")
  case None
  then show ?thesis using assms by (simp add: alloc_def)
next
  case (Some c0)
  with assms obtain xs c ys fl where lay: "layout s xs c ys fl"
    by (auto simp: pool_inv_def)
  from layout_current [OF lay] obtain d b where
    c: "pools s c = Some d" and b: "m_pool d = Some b" by blast
  show ?thesis
  proof (cases "m_currentIdx d = m_poolsize d")
    case False
    from alloc_no_growth [OF lay c b False] show ?thesis
      unfolding pool_inv_def by blast
  next
    case True
    show ?thesis
    proof (cases fl)
      case Nil
      with lay have lay': "layout s xs c ys []" by simp
      from alloc_fresh [OF lay' c True] show ?thesis
        unfolding pool_inv_def by blast
    next
      case (Cons f fl')
      with lay have lay': "layout s xs c ys (f # fl')" by simp
      then have "chunk_ok (pools s) (arrays s) f"
        by (simp add: layout_def)
      then obtain cf bf where "pools s f = Some cf" "m_pool cf = Some bf"
        by (auto simp: chunk_ok_def split: option.splits)
      from alloc_reuse [OF lay' c True this] show ?thesis
        unfolding pool_inv_def by blast
    qed
  qed
qed

lemma zero_cursors_next: "map_option m_next (zero_cursors ps h a) = map_option m_next (h a)"
  by (cases "h a") (auto simp: zero_cursors_def)

lemma psize_zero_cursors: "psize (zero_cursors ps h) = psize h"
  by (auto simp: psize_def zero_cursors_def fun_eq_iff split: option.splits)

lemma pbuf_zero_cursors: "pbuf (zero_cursors ps h) = pbuf h"
  by (auto simp: pbuf_def zero_cursors_def fun_eq_iff split: option.splits)

lemma chunk_ok_zero_cursors: "chunk_ok (zero_cursors ps h) ar = chunk_ok h ar"
  by (auto simp: chunk_ok_def zero_cursors_def fun_eq_iff split: option.splits)

lemma pidx_zero_cursors: "p \<in> set ps \<Longrightarrow> pidx (zero_cursors ps h) p = 0"
  by (auto simp: pidx_def zero_cursors_def split: option.splits)

lemma pool_chain_zero_cursors: "pool_chain (zero_cursors ps h) x qs = pool_chain h x qs"
  unfolding pool_chain_def by (rule pool_path_cong) (rule zero_cursors_next)

lemma release_layout:
  assumes lay: "layout s xs c ys fl" and ps: "xs @ c # ys @ fl = p # rest"
    and p: "pools s p = Some d"
  defines "s' \<equiv> s\<lparr>pools := zero_cursors (p # rest) (pools s),
                    m_freeList := m_next d, m_current := Some p\<rparr>"
  shows "release s = Some (Inr s')" and "layout s' [] p [] rest"
proof -
  have chain: "pool_chain (pools s) (m_first s) (p # rest)"
    using lay ps by (simp add: layout_def)
  then have first: "m_first s = Some p" and rest: "pool_chain (pools s) (m_next d) rest"
    using p by (auto simp: pool_chain_Cons)
  have cur: "m_current s = Some c"
    using lay by (simp add: layout_def)
  have loop: "release_loop (m_first s) s =
      Some (Inr (s\<lparr>pools := zero_cursors (p # rest) (pools s)\<rparr>))"
    using chain by (rule release_loop_chain)
  have zp: "zero_cursors (p # rest) (pools s) p = Some (d\<lparr>m_currentIdx := 0\<rparr>)"
    using p by (simp add: zero_cursors_def)
  show "release s = Some (Inr s')"
    using cur loop first zp by (simp add: release_def deref_def s'_def)
  have 1: "pool_chain (pools s') (m_first s') ([] @ p # [] @ rest)"
    using chain by (simp add: s'_def pool_chain_zero_cursors)
  have 2: "m_freeList s' = (case rest of [] \<Rightarrow> None | f # fs \<Rightarrow> Some f)"
    using pool_chain_start [OF rest] by (simp add: s'_def)
  have 3: "\<forall>q\<in>set rest. pidx (pools s') q = 0"
    by (simp add: s'_def pidx_zero_cursors)
  have 4: "heap_bounded s'"
    using lay by (auto simp: layout_def heap_bounded_def s'_def zero_cursors_def)
  show "layout s' [] p [] rest"
    unfolding layout_def using lay 1 2 3 4 ps
    by (simp add: layout_def s'_def psize_zero_cursors pbuf_zero_cursors chunk_ok_zero_cursors)
qed

lemma release_preserves_inv:
  assumes "pool_inv s"
  shows "\<exists>s'. release s = Some (Inr s') \<and> pool_inv s'"
proof (cases "m_current s")
  case None
  then show ?thesis using assms by (simp add: release_def)
next
  case (Some c0)
  with assms obtain xs c ys fl where lay: "layout s xs c ys fl"
    by (auto simp: pool_inv_def)
  obtain p rest where ps: "xs @ c # ys @ fl = p # rest"
    by (cases xs) auto
  then have "p \<in> set (xs @ c # ys @ fl)" by simp
  from layout_live [OF lay this] obtain d where "pools s p = Some d" ..
  from release_layout [OF lay ps this] show ?thesis
    unfolding pool_inv_def by blast
qed

lemma clear_layout:
  assumes lay: "layout s xs c ys fl"
  defines "s' \<equiv> s\<lparr>arrays := arrays s |` (- bufs_of (pools s) (xs @ c # ys @ fl)),
                    pools := pools s |` (- set (xs @ c # ys @ fl)),
                    m_current := None, m_freeList := None\<rparr>"
  shows "clear s = Some (Inr s')" and "heap_bounded s'"
proof -
  have cur: "m_current s = Some c"
    using lay by (simp add: layout_def)
  have "clear_loop (m_first s) s =
      Some (Inr (s\<lparr>arrays := arrays s |` (- bufs_of (pools s) (xs @ c # ys @ fl)),
                   pools := pools s |` (- set (xs @ c # ys @ fl))\<rparr>))"
    using lay unfolding layout_def by (intro clear_loop_chain) simp_all
  then show "clear s = Some (Inr s')"
    using cur by (simp add: clear_def s'_def)
  show "heap_bounded s'"
    using lay by (auto simp: layout_def heap_bounded_def s'_def restrict_map_def)
qed

lemma clear_preserves_inv:
  assumes "pool_inv s"
  shows "\<exists>s'. clear s = Some (Inr s') \<and> pool_inv s' \<and> m_current s' = None \<and>
     m_freeList s' = None \<and> heap_bounded s'"
proof (cases "m_current s")
  case None
  then show ?thesis using assms by (auto simp: clear_def pool_inv_def layout_def)
next
  case (Some c0)
  with assms obtain xs c ys fl where lay: "layout s xs c ys fl"
    by (auto simp: pool_inv_def)
  from clear_layout [OF lay] show ?thesis
    by (simp add: pool_inv_def)
qed

lemma reserve_after_clear:
  assumes "clear s = Some (Inr s1)"
  shows "reserve sz s =
     Some (Inr (s1\<lparr>arrays := (arrays s1)(fresh s1 \<mapsto> sz, Suc (Suc (fresh s1)) \<mapsto> sz),
                   pools := (pools s1)
                     (Suc (fresh s1) \<mapsto>
                        \<lparr>m_poolsize = sz, m_pool = Some (Suc (Suc (fresh s1))),
                         m_currentIdx = 0, m_next = None\<rparr>),
                   fresh := Suc (Suc (Suc (fresh s1))),
                   m_first := Some (Suc (fresh s1)),
                   m_current := Some (Suc (fresh s1)),
                   m_capacity := sz\<rparr>))"
  using assms by (simp add: reserve_def new_Pool_def new_array_def)

lemma of_nat_neq_size:
  fixes n :: size_t
  assumes "i < unat n"
  shows "of_nat i \<noteq> n"
proof
  assume "of_nat i = n"
  moreover have "i < 2 ^ LENGTH(64)"
    using assms unsigned_less [of n] by (rule less_trans)
  ultimately have "unat n = i"
    by (rule of_nat_inverse)
  with assms show False by simp
qed

lemma alloc_n_within:
  assumes "m_current s = Some c" "pools s c = Some d" "m_pool d = Some b"
    "m_currentIdx d = of_nat i" "i + k \<le> unat (m_poolsize d)"
  shows "alloc_n k s =
     Inr (map (\<lambda>j. Some (b, of_nat j)) [i..<i + k],
          s\<lparr>pools := (pools s)(c \<mapsto> d\<lparr>m_currentIdx := of_nat (i + k)\<rparr>)\<rparr>)"
  using assms
proof (induction k arbitrary: s d i)
  case 0
  have "d\<lparr>m_currentIdx := of_nat i\<rparr> = d"
    using "0.prems"(4) by simp
  then show ?case
    using "0.prems"(2) by (simp add: map_upd_triv)
next
  case (Suc k)
  let ?d = "d\<lparr>m_currentIdx := of_nat (Suc i)\<rparr>"
  let ?s = "s\<lparr>pools := (pools s)(c \<mapsto> ?d)\<rparr>"
  have "i < unat (m_poolsize d)"
    using Suc.prems(5) by simp
  then have "of_nat i \<noteq> m_poolsize d"
    by (rule of_nat_neq_size)
  then have a: "alloc s = Inr (Some (b, of_nat i), ?s)"
    using Suc.prems(1-4) by (simp add: alloc_def add.commute)
  have IH: "alloc_n k ?s =
     Inr (map (\<lambda>j. Some (b, of_nat j)) [Suc i..<Suc i + k],
          ?s\<lparr>pools := (pools ?s)(c \<mapsto> ?d\<lparr>m_currentIdx := of_nat (Suc i + k)\<rparr>)\<rparr>)"
    using Suc.prems(3,5) by (intro Suc.IH) (simp_all add: Suc.prems(1))
  have lst: "Some (b, of_nat i) # map (\<lambda>j. Some (b, of_nat j)) [Suc i..<Suc i + k] =
      map (\<lambda>j. Some (b, of_nat j)) [i..<i + Suc k]"
    by (simp add: upt_conv_Cons del: upt_Suc)
  have st: "?s\<lparr>pools := (pools ?s)(c \<mapsto> ?d\<lparr>m_currentIdx := of_nat (Suc i + k)\<rparr>)\<rparr> =
      s\<lparr>pools := (pools s)(c \<mapsto> d\<lparr>m_currentIdx := of_nat (i + Suc k)\<rparr>)\<rparr>"
    by simp
  have "alloc_n (Suc k) s =
     Inr (Some (b, of_nat i) # map (\<lambda>j. Some (b, of_nat j)) [Suc i..<Suc i + k],
          ?s\<lparr>pools := (pools ?s)(c \<mapsto> ?d\<lparr>m_currentIdx := of_nat (Suc i + k)\<rparr>)\<rparr>)"
    by (simp only: alloc_n.simps a IH sum.case prod.case)
  then show ?case
    by (simp only: lst st)
qed

lemma alloc_n_add:
  "alloc_n k s = Inr (rs, s1) \<Longrightarrow> alloc_n j s1 = Inr (rs', s2) \<Longrightarrow>
   alloc_n (k + j) s = Inr (rs @ rs', s2)"
proof (induction k arbitrary: s rs)
  case 0
  then show ?case by simp
next
  case (Suc k)
  from Suc.prems(1) obtain r s0 rs0 where
    a: "alloc s = Inr (r, s0)" "alloc_n k s0 = Inr (rs0, s1)" "rs = r # rs0"
    by (auto split: sum.splits prod.splits)
  from Suc.IH [OF a(2) Suc.prems(2)] a(1,3) show ?case by simp
qed

lemma alloc_n_one: "alloc s = Inr (r, s') \<Longrightarrow> alloc_n (Suc 0) s = Inr ([r], s')"
  by simp

lemma alloc_n_preserves_inv:
  "pool_inv s \<Longrightarrow> \<exists>rs s'. alloc_n k s = Inr (rs, s') \<and> pool_inv s'"
proof (induction k arbitrary: s)
  case 0
  then show ?case by simp
next
  case (Suc k)
  from alloc_preserves_inv [OF Suc.prems] obtain r s1 where
    a: "alloc s = Inr (r, s1)" "pool_inv s1" by blast
  from Suc.IH [OF a(2)] obtain rs s2 where "alloc_n k s1 = Inr (rs, s2)" "pool_inv s2"
    by blast
  with a show ?case by simp
qed

lemma one_le_pos: "0 < (n :: size_t) \<Longrightarrow> 1 \<le> n"
  using inc_le [of 0 n] by simp

lemma layout_chain_sorted:
  assumes "layout s xs c ys fl" "pool_chain (pools s) (m_first s) ps"
  shows "sorted (map (psize (pools s)) ps)"
proof -
  have "pool_chain (pools s) (m_first s) (xs @ c # ys @ fl)"
    using assms(1) by (simp add: layout_def)
  with assms(2) have "ps = xs @ c # ys @ fl"
    by (rule pool_chain_unique)
  with assms(1) show ?thesis
    by (simp add: layout_def)
qed

lemma alloc_slot:
  assumes inv: "pool_inv s" and cur: "m_current s \<noteq> None"
  shows "\<exists>b i s' p d. alloc s = Inr (Some (b, i), s') \<and> m_current s' = Some p \<and>
       pools s' p = Some d \<and> m_pool d = Some b \<and> m_currentIdx d = i + 1 \<and>
       arrays s' b = Some (m_poolsize d) \<and> pool_inv s' \<and>
       (cursors_ok s \<longrightarrow> i < m_poolsize d \<and> cursors_ok s')"
proof -
  from inv cur obtain xs c ys fl where lay: "layout s xs c ys fl"
    by (auto simp: pool_inv_def)
  from layout_current [OF lay] obtain d b where
    c: "pools s c = Some d" and b: "m_pool d = Some b"
    and ar: "arrays s b = Some (m_poolsize d)" by blast
  show ?thesis
  proof (cases "m_currentIdx d = m_poolsize d")
    case False
    let ?d = "d\<lparr>m_currentIdx := m_currentIdx d + 1\<rparr>"
    let ?s = "s\<lparr>pools := (pools s)(c \<mapsto> ?d)\<rparr>"
    from alloc_no_growth [OF lay c b False]
    have a: "alloc s = Inr (Some (b, m_currentIdx d), ?s)" and l: "layout ?s xs c ys fl"
      by simp_all
    have 1: "m_current ?s = Some c" "pools ?s c = Some ?d" "m_pool ?d = Some b"
      "m_currentIdx ?d = m_currentIdx d + 1" "arrays ?s b = Some (m_poolsize ?d)"
      using lay b ar by (simp_all add: layout_def)
    have 2: "pool_inv ?s"
      using l unfolding pool_inv_def by blast
    have 3: "cursors_ok s \<longrightarrow> m_currentIdx d < m_poolsize ?d \<and> cursors_ok ?s"
    proof
      assume ok: "cursors_ok s"
      with c have "m_currentIdx d \<le> m_poolsize d"
        by (simp add: cursors_ok_def)
      with False have lt: "m_currentIdx d < m_poolsize d" by simp
      then have "m_currentIdx d + 1 \<le> m_poolsize d" by (rule inc_le)
      with ok c lt show "m_currentIdx d < m_poolsize ?d \<and> cursors_ok ?s"
        by (auto simp: cursors_ok_def)
    qed
    show ?thesis
      using a 1 2 3 by blast
  next
    case True
    show ?thesis
    proof (cases fl)
      case Nil
      let ?p = "Suc (fresh s)"
      let ?n = "\<lparr>m_poolsize = m_poolsize d, m_pool = Some (fresh s), m_currentIdx = 1,
                 m_next = None\<rparr>"
      let ?s = "s\<lparr>arrays := (arrays s)(fresh s \<mapsto> m_poolsize d),
                    pools := (pools s)(c \<mapsto> d\<lparr>m_next := Some ?p\<rparr>, ?p \<mapsto> ?n),
                    fresh := Suc (Suc (fresh s)),
                    m_capacity := m_capacity s + m_poolsize d,
                    m_current := Some ?p\<rparr>"
      from Nil lay have lay': "layout s xs c ys []" by simp
      from alloc_fresh [OF lay' c True]
      have a: "alloc s = Inr (Some (fresh s, 0), ?s)" and l: "layout ?s (xs @ [c]) ?p [] []"
        by simp_all
      have 1: "m_current ?s = Some ?p" "pools ?s ?p = Some ?n" "m_pool ?n = Some (fresh s)"
        "m_currentIdx ?n = 0 + 1" "arrays ?s (fresh s) = Some (m_poolsize ?n)"
        by simp_all
      have 2: "pool_inv ?s"
        using l unfolding pool_inv_def by blast
      have 3: "cursors_ok s \<longrightarrow> 0 < m_poolsize ?n \<and> cursors_ok ?s"
      proof
        assume ok: "cursors_ok s"
        with c have "0 < m_poolsize d" "m_currentIdx d \<le> m_poolsize d"
          by (simp_all add: cursors_ok_def)
        with ok show "0 < m_poolsize ?n \<and> cursors_ok ?s"
          by (auto simp: cursors_ok_def one_le_pos)
      qed
      show ?thesis
        using a 1 2 3 by blast
    next
      case (Cons f fl')
      with lay have lay': "layout s xs c ys (f # fl')" by simp
      then have "chunk_ok (pools s) (arrays s) f"
        by (simp add: layout_def)
      then obtain cf bf where f: "pools s f = Some cf" and bf: "m_pool cf = Some bf"
        and arf: "arrays s bf = Some (m_poolsize cf)"
        by (auto simp: chunk_ok_def split: option.splits)
      let ?n = "cf\<lparr>m_currentIdx := 1\<rparr>"
      let ?s = "s\<lparr>m_freeList := (case fl' of [] \<Rightarrow> None | f' # fs \<Rightarrow> Some f'),
                    pools := (pools s)(c \<mapsto> d\<lparr>m_next := Some f\<rparr>, f \<mapsto> ?n),
                    m_current := Some f\<rparr>"
      from alloc_reuse [OF lay' c True f bf]
      have a: "alloc s = Inr (Some (bf, 0), ?s)" and l: "layout ?s (xs @ [c]) f [] fl'"
        by simp_all
      have 1: "m_current ?s = Some f" "pools ?s f = Some ?n" "m_pool ?n = Some bf"
        "m_currentIdx ?n = 0 + 1" "arrays ?s bf = Some (m_poolsize ?n)"
        using bf arf by simp_all
      have 2: "pool_inv ?s"
        using l unfolding pool_inv_def by blast
      have 3: "cursors_ok s \<longrightarrow> 0 < m_poolsize ?n \<and> cursors_ok ?s"
      proof
        assume ok: "cursors_ok s"
        with c f have "0 < m_poolsize cf" "m_currentIdx d \<le> m_poolsize d" "0 < m_poolsize d"
          by (simp_all add: cursors_ok_def)
        with ok show "0 < m_poolsize ?n \<and> cursors_ok ?s"
          by (auto simp: cursors_ok_def one_le_pos)
      qed
      show ?thesis
        using a 1 2 3 by blast
    qed
  qed
qed

lemma alloc_null_only_without_chunk:
  "alloc s = Inr (r, s') \<Longrightarrow> (r = None) = (m_current s = None)"
  by (auto simp: alloc_def split: option.splits sum.splits if_splits)

lemma zero_cursors_dom: "dom (zero_cursors ps h) = dom h"
  by (auto simp: zero_cursors_def dom_def)

lemma alloc_full_moves_on:
  assumes lay: "layout s xs c ys fl" and c: "pools s c = Some d"
    and full: "m_currentIdx d = m_poolsize d"
  shows "\<exists>b s'. alloc s = Inr (Some (b, 0), s') \<and> m_current s' \<noteq> Some c"
proof (cases fl)
  case Nil
  with lay have lay': "layout s xs c ys []" by simp
  have "heap_bounded s"
    using lay by (simp add: layout_def)
  then have "c < fresh s"
    using c by (rule heap_bounded_pool_less)
  with alloc_fresh(1) [OF lay' c full] show ?thesis
    by simp
next
  case (Cons f fl')
  with lay have lay': "layout s xs c ys (f # fl')" by simp
  then have "chunk_ok (pools s) (arrays s) f"
    by (simp add: layout_def)
  then obtain cf bf where f: "pools s f = Some cf" and bf: "m_pool cf = Some bf"
    by (auto simp: chunk_ok_def split: option.splits)
  have "distinct (xs @ c # ys @ f # fl')"
    using lay' by (rule layout_distinct)
  then have "f \<noteq> c" by auto
  with alloc_reuse(1) [OF lay' c full f bf] show ?thesis
    by simp
qed

lemma reserve_result:
  assumes cl: "clear s = Some (Inr s1)" and hb: "heap_bounded s1"
    and e: "m_current s1 = None" "m_freeList s1 = None"
  defines "p \<equiv> Suc (fresh s1)" and "b \<equiv> Suc (Suc (fresh s1))"
  shows "\<exists>s'. reserve m s = Some (Inr s') \<and> m_first s' = Some p \<and> m_current s' = Some p \<and>
     m_freeList s' = None \<and>
     pools s' = (pools s1)(p \<mapsto> \<lparr>m_poolsize = m, m_pool = Some b, m_currentIdx = 0,
                                  m_next = None\<rparr>) \<and>
     arrays s' = (arrays s1)(fresh s1 \<mapsto> m, b \<mapsto> m) \<and>
     pool_chain (pools s') (m_first s') [p] \<and> capacity s' = m \<and> pool_inv s'"
proof -
  let ?s = "s1\<lparr>arrays := (arrays s1)(fresh s1 \<mapsto> m, Suc (Suc (fresh s1)) \<mapsto> m),
                   pools := (pools s1)
                     (Suc (fresh s1) \<mapsto>
                        \<lparr>m_poolsize = m, m_pool = Some (Suc (Suc (fresh s1))),
                         m_currentIdx = 0, m_next = None\<rparr>),
                   fresh := Suc (Suc (Suc (fresh s1))),
                   m_first := Some (Suc (fresh s1)),
                   m_current := Some (Suc (fresh s1)),
                   m_capacity := m\<rparr>"
  have r: "reserve m s = Some (Inr ?s)"
    using cl by (rule reserve_after_clear)
  have "layout ?s [] p [] []"
    using hb e
    by (auto simp: layout_def pool_chain_Cons psize_def chunk_ok_def pbuf_def heap_bounded_def
        p_def)
  then have "pool_inv ?s"
    unfolding pool_inv_def by blast
  then show ?thesis
    using r e by (simp add: p_def b_def pool_chain_Cons capacity_def)
qed

lemma reserve_from:
  assumes cl: "clear s = Some (Inr s1)" and hb1: "heap_bounded s1"
    and e: "m_current s1 = None" "m_freeList s1 = None" and fr: "fresh s1 = fresh s"
    and hb: "heap_bounded s"
    and torn: "m_current s \<noteq> None \<longrightarrow>
        (\<forall>ps. pool_chain (pools s) (m_first s) ps \<longrightarrow>
           (\<forall>q\<in>set ps. q < fresh s \<and> pools s1 q = None \<and>
              (\<forall>a. pbuf (pools s) q = Some a \<longrightarrow> a < fresh s \<and> arrays s1 a = None)))"
  shows "\<exists>s' p b. reserve m s = Some (Inr s') \<and>
     m_first s' = Some p \<and> m_current s' = Some p \<and> m_freeList s' = None \<and>
     pools s p = None \<and> arrays s b = None \<and>
     pools s' p = Some \<lparr>m_poolsize = m, m_pool = Some b, m_currentIdx = 0, m_next = None\<rparr> \<and>
     arrays s' b = Some m \<and>
     pool_chain (pools s') (m_first s') [p] \<and> capacity s' = m \<and> pool_inv s' \<and>
     (m_current s \<noteq> None \<longrightarrow>
        (\<forall>ps. pool_chain (pools s) (m_first s) ps \<longrightarrow>
           (\<forall>q\<in>set ps. pools s' q = None \<and>
              (\<forall>a. pbuf (pools s) q = Some a \<longrightarrow> arrays s' a = None))))"
proof -
  let ?p = "Suc (fresh s1)" and ?b = "Suc (Suc (fresh s1))"
  from reserve_result [OF cl hb1 e, of m] obtain s' where
    r: "reserve m s = Some (Inr s')" and f: "m_first s' = Some ?p"
      and c: "m_current s' = Some ?p" and l: "m_freeList s' = None"
      and ps': "pools s' = (pools s1)(?p \<mapsto>
          \<lparr>m_poolsize = m, m_pool = Some ?b, m_currentIdx = 0, m_next = None\<rparr>)"
      and ar': "arrays s' = (arrays s1)(fresh s1 \<mapsto> m, ?b \<mapsto> m)"
      and ch: "pool_chain (pools s') (m_first s') [?p]" and cap: "capacity s' = m"
      and inv': "pool_inv s'"
    by blast
  have n1: "pools s ?p = None" and n2: "arrays s ?b = None"
    using hb fr by (simp_all add: heap_bounded_def)
  have p1: "pools s' ?p =
      Some \<lparr>m_poolsize = m, m_pool = Some ?b, m_currentIdx = 0, m_next = None\<rparr>"
    by (simp add: ps')
  have a1: "arrays s' ?b = Some m"
    by (simp add: ar')
  have t: "m_current s \<noteq> None \<longrightarrow>
        (\<forall>ps. pool_chain (pools s) (m_first s) ps \<longrightarrow>
           (\<forall>q\<in>set ps. pools s' q = None \<and>
              (\<forall>a. pbuf (pools s) q = Some a \<longrightarrow> arrays s' a = None)))"
  proof (intro allI impI ballI conjI)
    fix ps q a
    assume 1: "m_current s \<noteq> None" "pool_chain (pools s) (m_first s) ps" "q \<in> set ps"
    with torn have q: "q < fresh s" "pools s1 q = None"
      and qa: "\<forall>a. pbuf (pools s) q = Some a \<longrightarrow> a < fresh s \<and> arrays s1 a = None"
      by blast+
    show "pools s' q = None"
      using q fr by (simp add: ps')
    assume "pbuf (pools s) q = Some a"
    with qa have "a < fresh s" "arrays s1 a = None" by blast+
    then show "arrays s' a = None"
      using fr by (simp add: ar')
  qed
  show ?thesis
    apply (rule exI [of _ s'], rule exI [of _ ?p], rule exI [of _ ?b])
    apply (intro conjI)
               apply (fact r f c l n1 n2 p1 a1 ch cap inv' t)+
    done
qed

lemma resize_preserves_inv:
  assumes inv: "pool_inv s" and e: "m_current s = None \<longrightarrow> m_first s = None"
  shows "\<exists>s'. resize g s = Inr s' \<and> pool_inv s'"
proof (cases "m_current s")
  case None
  with inv e have 0: "m_first s = None" "m_freeList s = None" "heap_bounded s"
    by (auto simp: pool_inv_def layout_def)
  let ?s = "s\<lparr>arrays := (arrays s)(fresh s \<mapsto> g),
             pools := (pools s)
               (Suc (fresh s) \<mapsto>
                  \<lparr>m_poolsize = g, m_pool = Some (fresh s), m_currentIdx = 0, m_next = None\<rparr>),
             fresh := Suc (Suc (fresh s)),
             m_first := Some (Suc (fresh s)),
             m_current := Some (Suc (fresh s)),
             m_freeList := None,
             m_capacity := m_capacity s + g\<rparr>"
  have "resize g s = resize_grow g s"
    using None by (simp add: resize_def)
  also have "\<dots> = Inr ?s"
    using 0(2) unfolding resize_grow_empty [OF 0(1)] by (cases s) simp
  finally have "resize g s = Inr ?s" .
  moreover have "layout ?s [] (Suc (fresh s)) [] []"
    using 0(3) by (rule layout_single)
  ultimately show ?thesis
    unfolding pool_inv_def by blast
next
  case (Some c0)
  with inv obtain xs c ys fl where lay: "layout s xs c ys fl"
    by (auto simp: pool_inv_def)
  from layout_current [OF lay] obtain d where c: "pools s c = Some d" by blast
  have cur: "m_current s = Some c"
    using lay by (simp add: layout_def)
  show ?thesis
  proof (cases "g < m_poolsize d")
    case True
    then have "resize g s = Inr s"
      using cur c by (simp add: resize_def)
    with inv show ?thesis by blast
  next
    case False
    then have r: "resize g s = resize_grow g s" and le: "m_poolsize d \<le> g"
      using cur c by (simp_all add: resize_def)
    show ?thesis
    proof (cases fl)
      case Nil
      with lay have "layout s xs c ys []" by simp
      from resize_grow_fresh [OF this c le] r show ?thesis
        unfolding pool_inv_def by metis
    next
      case (Cons f fl')
      with lay have "layout s xs c ys (f # fl')" by simp
      from resize_grow_reuse [OF this c] r show ?thesis
        unfolding pool_inv_def by metis
    qed
  qed
qed

lemma reset_preserves_inv:
  assumes inv: "pool_inv s" and e: "m_current s = None \<longrightarrow> m_first s = None"
  shows "pool_inv (reset s)"
proof (cases "m_current s")
  case None
  with inv e show ?thesis
    by (auto simp: pool_inv_def reset_def heap_bounded_def layout_def)
next
  case (Some c0)
  with inv obtain xs c ys fl where lay: "layout s xs c ys fl"
    by (auto simp: pool_inv_def)
  obtain p zs where ps: "xs @ c # ys = p # zs"
    by (cases xs) auto
  then have ps': "xs @ c # ys @ fl = p # zs @ fl"
    by (metis append_Cons append_assoc)
  have "pool_chain (pools s) (m_first s) (p # zs @ fl)"
    using lay ps' by (simp add: layout_def)
  then have "m_first s = Some p"
    by (simp add: pool_chain_Cons)
  then have "layout (reset s) [] p zs fl"
    using lay ps' by (simp add: layout_def reset_def heap_bounded_def)
  then show ?thesis
    unfolding pool_inv_def by blast
qed

lemma pool_inv_current_live:
  assumes "pool_inv s" "m_current s = Some c"
  shows "\<exists>d. pools s c = Some d"
proof -
  from assms obtain xs c' ys fl where lay: "layout s xs c' ys fl"
    by (auto simp: pool_inv_def)
  with assms(2) have "c' = c" by (simp add: layout_def)
  with layout_current [OF lay] show ?thesis by blast
qed

lemma growth_exact:
  assumes inv: "pool_inv s" and cur: "m_current s = Some c" and c: "pools s c = Some d"
    and full: "m_currentIdx d = m_poolsize d"
  shows "case m_freeList s of
        Some f \<Rightarrow>
          (\<exists>cf bf fl. pools s f = Some cf \<and> m_pool cf = Some bf \<and> m_currentIdx cf = 0 \<and>
             f \<noteq> c \<and> pool_chain (pools s) (m_freeList s) (f # fl) \<and>
             alloc s =
               Inr (Some (bf, 0),
                    s\<lparr>m_freeList := m_next cf,
                      pools := (pools s)(c \<mapsto> d\<lparr>m_next := Some f\<rparr>,
                                         f \<mapsto> cf\<lparr>m_currentIdx := 1\<rparr>),
                      m_current := Some f\<rparr>) \<and>
             pool_chain ((pools s)(c \<mapsto> d\<lparr>m_next := Some f\<rparr>, f \<mapsto> cf\<lparr>m_currentIdx := 1\<rparr>))
               (m_next cf) fl)
      | None \<Rightarrow>
          pools s (Suc (fresh s)) = None \<and> arrays s (fresh s) = None \<and>
          c \<noteq> Suc (fresh s) \<and>
          alloc s =
            Inr (Some (fresh s, 0),
                 s\<lparr>arrays := (arrays s)(fresh s \<mapsto> m_poolsize d),
                   pools := (pools s)
                     (c \<mapsto> d\<lparr>m_next := Some (Suc (fresh s))\<rparr>,
                      Suc (fresh s) \<mapsto>
                        \<lparr>m_poolsize = m_poolsize d, m_pool = Some (fresh s), m_currentIdx = 1,
                         m_next = None\<rparr>),
                   fresh := Suc (Suc (fresh s)),
                   m_capacity := m_capacity s + m_poolsize d,
                   m_current := Some (Suc (fresh s))\<rparr>)"
proof -
  from inv cur obtain xs c' ys fl where lay0: "layout s xs c' ys fl"
    by (auto simp: pool_inv_def)
  with cur have "c' = c" by (simp add: layout_def)
  with lay0 have lay: "layout s xs c ys fl" by simp
  have hb: "heap_bounded s"
    using lay by (simp add: layout_def)
  show ?thesis
  proof (cases fl)
    case Nil
    with lay have lay': "layout s xs c ys []" by simp
    have free: "m_freeList s = None"
      using lay' by (simp add: layout_def)
    have "c < fresh s"
      using hb c by (rule heap_bounded_pool_less)
    then have ne: "c \<noteq> Suc (fresh s)" by simp
    have new: "pools s (Suc (fresh s)) = None" "arrays s (fresh s) = None"
      using hb by (simp_all add: heap_bounded_def)
    show ?thesis
      using alloc_fresh(1) [OF lay' c full] free ne new by simp
  next
    case (Cons f fl')
    with lay have lay': "layout s xs c ys (f # fl')" by simp
    have free: "m_freeList s = Some f"
      using lay' by (simp add: layout_def)
    have chain: "pool_chain (pools s) (m_first s) ((xs @ c # ys) @ f # fl')"
      using lay' by (simp add: layout_def)
    from pool_chain_mid [OF chain] obtain cf where
      f: "pools s f = Some cf" and rest: "pool_chain (pools s) (m_next cf) fl'"
      by blast
    have "chunk_ok (pools s) (arrays s) f"
      using lay' by (simp add: layout_def)
    with f obtain bf where bf: "m_pool cf = Some bf"
      by (auto simp: chunk_ok_def split: option.splits)
    have "pidx (pools s) f = 0"
      using lay' by (simp add: layout_def)
    with f have i0: "m_currentIdx cf = 0"
      by (simp add: pidx_def)
    have dist: "distinct (xs @ c # ys @ f # fl')"
      using lay' by (rule layout_distinct)
    then have ne: "f \<noteq> c" by auto
    have nf: "m_next cf = (case fl' of [] \<Rightarrow> None | f' # fs \<Rightarrow> Some f')"
      using rest by (rule pool_chain_start)
    have before: "pool_chain (pools s) (m_freeList s) (f # fl')"
      using free f rest by (simp add: pool_chain_Cons)
    let ?h = "(pools s)(c \<mapsto> d\<lparr>m_next := Some f\<rparr>, f \<mapsto> cf\<lparr>m_currentIdx := 1\<rparr>)"
    have "c \<notin> set fl'" "f \<notin> set fl'"
      using dist by auto
    then have "\<forall>a\<in>set fl'. map_option m_next (?h a) = map_option m_next (pools s a)"
      by auto
    then have "pool_path ?h (m_next cf) fl' None = pool_path (pools s) (m_next cf) fl' None"
      by (intro pool_path_cong) simp
    with rest have after: "pool_chain ?h (m_next cf) fl'"
      by (simp add: pool_chain_def)
    have a: "alloc s = Inr (Some (bf, 0),
                    s\<lparr>m_freeList := m_next cf, pools := ?h, m_current := Some f\<rparr>)"
      using alloc_reuse(1) [OF lay' c full f bf] nf by simp
    show ?thesis
      using free f bf i0 ne before a after by auto
  qed
qed

lemma alloc_slot_at_cursor:
  assumes inv: "pool_inv s" and cur: "m_current s = Some c" and c: "pools s c = Some d0"
  shows "\<exists>b i s' p d dp. alloc s = Inr (Some (b, i), s') \<and> m_current s' = Some p \<and>
       pools s' p = Some d \<and> m_pool d = Some b \<and> m_currentIdx d = i + 1 \<and>
       arrays s' b = Some (m_poolsize d) \<and>
       m_pool dp = Some b \<and> m_currentIdx dp = i \<and> d = dp\<lparr>m_currentIdx := i + 1\<rparr> \<and>
       (if m_currentIdx d0 = m_poolsize d0
        then p \<noteq> c \<and> i = 0 \<and>
          (case m_freeList s of
             Some f \<Rightarrow> p = f \<and> pools s f = Some dp \<and>
               s' = s\<lparr>m_freeList := m_next dp,
                      pools := (pools s)(c \<mapsto> d0\<lparr>m_next := Some f\<rparr>,
                                         f \<mapsto> dp\<lparr>m_currentIdx := 1\<rparr>),
                      m_current := Some f\<rparr>
           | None \<Rightarrow> pools s p = None \<and> arrays s b = None \<and>
               dp = \<lparr>m_poolsize = m_poolsize d0, m_pool = Some b, m_currentIdx = 0,
                      m_next = None\<rparr> \<and>
               s' = s\<lparr>arrays := (arrays s)(b \<mapsto> m_poolsize d0),
                      pools := (pools s)
                        (c \<mapsto> d0\<lparr>m_next := Some p\<rparr>,
                         p \<mapsto> \<lparr>m_poolsize = m_poolsize d0, m_pool = Some b,
                                m_currentIdx = 1, m_next = None\<rparr>),
                      fresh := Suc (Suc (fresh s)),
                      m_capacity := m_capacity s + m_poolsize d0,
                      m_current := Some p\<rparr>)
        else p = c \<and> dp = d0 \<and>
          s' = s\<lparr>pools := (pools s)(c \<mapsto> d0\<lparr>m_currentIdx := m_currentIdx d0 + 1\<rparr>)\<rparr>) \<and>
       (cursors_ok s \<longrightarrow> i < m_poolsize d \<and> cursors_ok s')"
proof -
  have cn: "m_current s \<noteq> None"
    using cur by simp
  from alloc_slot [OF inv cn] obtain b i s' p d where
    a: "alloc s = Inr (Some (b, i), s')" and p: "m_current s' = Some p"
    and d: "pools s' p = Some d" "m_pool d = Some b" "m_currentIdx d = i + 1"
      "arrays s' b = Some (m_poolsize d)"
    and ok: "cursors_ok s \<longrightarrow> i < m_poolsize d \<and> cursors_ok s'"
    by blast
  from inv cur obtain xs c' ys fl where lay0: "layout s xs c' ys fl"
    by (auto simp: pool_inv_def)
  with cur have "c' = c" by (simp add: layout_def)
  with lay0 have lay: "layout s xs c ys fl" by simp
  from layout_current [OF lay] c obtain b0 where b0: "m_pool d0 = Some b0"
    by auto
  show ?thesis
  proof (cases "m_currentIdx d0 = m_poolsize d0")
    case False
    let ?t = "s\<lparr>pools := (pools s)(c \<mapsto> d0\<lparr>m_currentIdx := m_currentIdx d0 + 1\<rparr>)\<rparr>"
    from alloc_no_growth(1) [OF lay c b0 False] a
    have e: "b = b0" "i = m_currentIdx d0" "s' = ?t"
      by simp_all
    from p e cur have pc: "p = c" by simp
    with d(1) e have dd: "d = d0\<lparr>m_currentIdx := i + 1\<rparr>" by simp
    have "m_pool d0 = Some b \<and> m_currentIdx d0 = i \<and> d = d0\<lparr>m_currentIdx := i + 1\<rparr> \<and>
       (if m_currentIdx d0 = m_poolsize d0
        then p \<noteq> c \<and> i = 0 \<and>
          (case m_freeList s of
             Some f \<Rightarrow> p = f \<and> pools s f = Some d0 \<and>
               s' = s\<lparr>m_freeList := m_next d0,
                      pools := (pools s)(c \<mapsto> d0\<lparr>m_next := Some f\<rparr>,
                                         f \<mapsto> d0\<lparr>m_currentIdx := 1\<rparr>),
                      m_current := Some f\<rparr>
           | None \<Rightarrow> pools s p = None \<and> arrays s b = None \<and>
               d0 = \<lparr>m_poolsize = m_poolsize d0, m_pool = Some b, m_currentIdx = 0,
                      m_next = None\<rparr> \<and>
               s' = s\<lparr>arrays := (arrays s)(b \<mapsto> m_poolsize d0),
                      pools := (pools s)
                        (c \<mapsto> d0\<lparr>m_next := Some p\<rparr>,
                         p \<mapsto> \<lparr>m_poolsize = m_poolsize d0, m_pool = Some b,
                                m_currentIdx = 1, m_next = None\<rparr>),
                      fresh := Suc (Suc (fresh s)),
                      m_capacity := m_capacity s + m_poolsize d0,
                      m_current := Some p\<rparr>)
        else p = c \<and> d0 = d0 \<and> s' = ?t)"
      using False b0 e pc dd by simp
    with a p d ok show ?thesis by blast
  next
    case True
    note ex = growth_exact [OF inv cur c True]
    show ?thesis
    proof (cases "m_freeList s")
      case None
      let ?p = "Suc (fresh s)"
      let ?dp = "\<lparr>m_poolsize = m_poolsize d0, m_pool = Some (fresh s), m_currentIdx = 0,
                  m_next = None\<rparr>"
      from ex None a have new: "pools s ?p = None" "arrays s (fresh s) = None" "c \<noteq> ?p"
        and e: "b = fresh s" "i = 0"
        and s': "s' = s\<lparr>arrays := (arrays s)(fresh s \<mapsto> m_poolsize d0),
                   pools := (pools s)
                     (c \<mapsto> d0\<lparr>m_next := Some ?p\<rparr>,
                      ?p \<mapsto> \<lparr>m_poolsize = m_poolsize d0, m_pool = Some (fresh s),
                             m_currentIdx = 1, m_next = None\<rparr>),
                   fresh := Suc (Suc (fresh s)),
                   m_capacity := m_capacity s + m_poolsize d0,
                   m_current := Some ?p\<rparr>"
        by simp_all
      from p s' have pp: "p = ?p" by simp
      with d(1) s' have dd: "d = ?dp\<lparr>m_currentIdx := i + 1\<rparr>"
        using e by simp
      have "m_pool ?dp = Some b \<and> m_currentIdx ?dp = i \<and> d = ?dp\<lparr>m_currentIdx := i + 1\<rparr> \<and>
       (if m_currentIdx d0 = m_poolsize d0
        then p \<noteq> c \<and> i = 0 \<and>
          (case m_freeList s of
             Some f \<Rightarrow> p = f \<and> pools s f = Some ?dp \<and>
               s' = s\<lparr>m_freeList := m_next ?dp,
                      pools := (pools s)(c \<mapsto> d0\<lparr>m_next := Some f\<rparr>,
                                         f \<mapsto> ?dp\<lparr>m_currentIdx := 1\<rparr>),
                      m_current := Some f\<rparr>
           | None \<Rightarrow> pools s p = None \<and> arrays s b = None \<and>
               ?dp = \<lparr>m_poolsize = m_poolsize d0, m_pool = Some b, m_currentIdx = 0,
                      m_next = None\<rparr> \<and>
               s' = s\<lparr>arrays := (arrays s)(b \<mapsto> m_poolsize d0),
                      pools := (pools s)
                        (c \<mapsto> d0\<lparr>m_next := Some p\<rparr>,
                         p \<mapsto> \<lparr>m_poolsize = m_poolsize d0, m_pool = Some b,
                                m_currentIdx = 1, m_next = None\<rparr>),
                      fresh := Suc (Suc (fresh s)),
                      m_capacity := m_capacity s + m_poolsize d0,
                      m_current := Some p\<rparr>)
        else p = c \<and> ?dp = d0 \<and>
          s' = s\<lparr>pools := (pools s)(c \<mapsto> d0\<lparr>m_currentIdx := m_currentIdx d0 + 1\<rparr>)\<rparr>)"
        using True None new e pp dd s' by simp
      with a p d ok show ?thesis by blast
    next
      case (Some f)
      from ex Some a obtain cf where
        f: "pools s f = Some cf" "m_pool cf = Some b" "m_currentIdx cf = 0" "f \<noteq> c"
        and e: "i = 0"
        and s': "s' = s\<lparr>m_freeList := m_next cf,
                      pools := (pools s)(c \<mapsto> d0\<lparr>m_next := Some f\<rparr>,
                                         f \<mapsto> cf\<lparr>m_currentIdx := 1\<rparr>),
                      m_current := Some f\<rparr>"
        by auto
      from p s' have pp: "p = f" by simp
      with d(1) s' have dd: "d = cf\<lparr>m_currentIdx := i + 1\<rparr>"
        using e by simp
      have "m_pool cf = Some b \<and> m_currentIdx cf = i \<and> d = cf\<lparr>m_currentIdx := i + 1\<rparr> \<and>
       (if m_currentIdx d0 = m_poolsize d0
        then p \<noteq> c \<and> i = 0 \<and>
          (case m_freeList s of
             Some f \<Rightarrow> p = f \<and> pools s f = Some cf \<and>
               s' = s\<lparr>m_freeList := m_next cf,
                      pools := (pools s)(c \<mapsto> d0\<lparr>m_next := Some f\<rparr>,
                                         f \<mapsto> cf\<lparr>m_currentIdx := 1\<rparr>),
                      m_current := Some f\<rparr>
           | None \<Rightarrow> pools s p = None \<and> arrays s b = None \<and>
               cf = \<lparr>m_poolsize = m_poolsize d0, m_pool = Some b, m_currentIdx = 0,
                      m_next = None\<rparr> \<and>
               s' = s\<lparr>arrays := (arrays s)(b \<mapsto> m_poolsize d0),
                      pools := (pools s)
                        (c \<mapsto> d0\<lparr>m_next := Some p\<rparr>,
                         p \<mapsto> \<lparr>m_poolsize = m_poolsize d0, m_pool = Some b,
                                m_currentIdx = 1, m_next = None\<rparr>),
                      fresh := Suc (Suc (fresh s)),
                      m_capacity := m_capacity s + m_poolsize d0,
                      m_current := Some p\<rparr>)
        else p = c \<and> cf = d0 \<and>
          s' = s\<lparr>pools := (pools s)(c \<mapsto> d0\<lparr>m_currentIdx := m_currentIdx d0 + 1\<rparr>)\<rparr>)"
        using True Some f e pp dd s' by simp
      with a p d ok show ?thesis by blast
    qed
  qed
qed

section \<open>Construction\<close>

lemma ctor_numItems_state:
  "TPoolAllocator_numItems n =
     \<lparr>pools = [1 \<mapsto> \<lparr>m_poolsize = n, m_pool = Some 0, m_currentIdx = 0, m_next = None\<rparr>],
      arrays = [0 \<mapsto> n], fresh = 2,
      m_first = Some 1, m_current = Some 1, m_freeList = None, m_capacity = n\<rparr>"
  by (simp add: TPoolAllocator_numItems_def new_Pool_def new_array_def empty_memory_def)

text \<open>
  C8. The constructor with an element count \<open>n\<close> creates exactly one chunk of size \<open>n\<close>
  (with a fresh array of \<open>n\<close> elements, cursor 0 and no successor), makes it both
  \<open>m_first\<close> and \<open>m_current\<close>, and right afterwards \<open>capacity()\<close> and \<open>freeMem()\<close> are
  both \<open>n\<close>. This holds for every \<open>n\<close>, in particular for every \<open>n > 0\<close>.
\<close>

theorem constructed_pool_has_one_chunk:
  "m_first (TPoolAllocator_numItems n) = Some 1 \<and>
   m_current (TPoolAllocator_numItems n) = Some 1 \<and>
   pools (TPoolAllocator_numItems n) =
     [1 \<mapsto> \<lparr>m_poolsize = n, m_pool = Some 0, m_currentIdx = 0, m_next = None\<rparr>] \<and>
   arrays (TPoolAllocator_numItems n) = [0 \<mapsto> n] \<and>
   capacity (TPoolAllocator_numItems n) = n \<and>
   freeMem (TPoolAllocator_numItems n) = Inr n"
  by (simp add: ctor_numItems_state capacity_def freeMem_def)

lemma ctor_inv: "pool_inv (TPoolAllocator_numItems n)"
proof -
  have "layout (TPoolAllocator_numItems n) [] 1 [] []"
    by (simp add: ctor_numItems_state layout_def pool_chain_Cons psize_def chunk_ok_def
        pbuf_def heap_bounded_def)
  then show ?thesis
    unfolding pool_inv_def by blast
qed

lemma default_inv: "pool_inv TPoolAllocator_default"
  by (simp add: pool_inv_def TPoolAllocator_default_def empty_memory_def heap_bounded_def)

section \<open>Reachable states\<close>

lemma dangling_faults:
  assumes "dangling s"
  shows "alloc s = Inl UseAfterFree" and "release s = Some (Inl UseAfterFree)"
    and "clear s = Some (Inl UseAfterFree)" and "reserve m s = Some (Inl UseAfterFree)"
    and "resize g s = Inl UseAfterFree" and "dangling (reset s)"
proof -
  from assms obtain p where p: "m_current s = Some p" "pools s p = None" "m_first s = Some p"
    by (auto simp: dangling_def split: option.splits)
  show "alloc s = Inl UseAfterFree"
    using p by (simp add: alloc_def)
  show "release s = Some (Inl UseAfterFree)"
    using p by (simp add: release_def release_loop.simps)
  show c: "clear s = Some (Inl UseAfterFree)"
    using p by (simp add: clear_def clear_loop.simps)
  show "reserve m s = Some (Inl UseAfterFree)"
    using c by (simp add: reserve_def)
  show "resize g s = Inl UseAfterFree"
    using p by (simp add: resize_def)
  show "dangling (reset s)"
    using p by (simp add: dangling_def reset_def)
qed

lemma resize_after_clear_faults:
  assumes "m_current s = None" "m_freeList s = None" "m_first s \<noteq> None"
  shows "resize g s = Inl NullDeref"
  using assms
  by (auto simp: resize_def resize_grow_def getFreePool_def new_Pool_def new_array_def)

lemma layout_inv:
  assumes "layout s xs c ys fl"
  shows "pool_inv s \<and> first_dead s"
proof
  show "pool_inv s"
    unfolding pool_inv_def using assms by blast
  have "m_current s \<noteq> None"
    using assms by (simp add: layout_def)
  then show "first_dead s"
    by (auto simp: first_dead_def)
qed

lemma alloc_keeps_inv:
  assumes "pool_inv s" "first_dead s" "alloc s = Inr (r, s')"
  shows "pool_inv s' \<and> first_dead s'"
proof (cases "m_current s")
  case None
  with assms show ?thesis by (simp add: alloc_def)
next
  case (Some c)
  then have "m_current s \<noteq> None" by simp
  from alloc_slot [OF assms(1) this] assms(3) show ?thesis
    by (auto simp: first_dead_def)
qed

lemma release_keeps_inv:
  assumes "pool_inv s" "first_dead s" "release s = Some (Inr s')"
  shows "pool_inv s' \<and> first_dead s'"
proof (cases "m_current s")
  case None
  with assms show ?thesis by (simp add: release_def)
next
  case (Some c0)
  with assms(1) obtain xs c ys fl where lay: "layout s xs c ys fl"
    by (auto simp: pool_inv_def)
  obtain p rest where ps: "xs @ c # ys @ fl = p # rest"
    by (cases xs) auto
  then have "p \<in> set (xs @ c # ys @ fl)" by simp
  from layout_live [OF lay this] obtain d where "pools s p = Some d" ..
  from release_layout [OF lay ps this] assms(3) show ?thesis
    by (auto simp: pool_inv_def first_dead_def)
qed

lemma clear_keeps_inv:
  assumes "pool_inv s" "first_dead s" "clear s = Some (Inr s')"
  shows "pool_inv s' \<and> first_dead s'"
proof (cases "m_current s")
  case None
  with assms show ?thesis by (simp add: clear_def)
next
  case (Some c0)
  with assms(1) obtain xs c ys fl where lay: "layout s xs c ys fl"
    by (auto simp: pool_inv_def)
  obtain p rest where ps: "xs @ c # ys @ fl = p # rest"
    by (cases xs) auto
  have "pool_chain (pools s) (m_first s) (p # rest)"
    using lay ps by (simp add: layout_def)
  then have first: "m_first s = Some p"
    by (simp add: pool_chain_Cons)
  from clear_layout [OF lay] assms(3)
  have s': "s' = s\<lparr>arrays := arrays s |` (- bufs_of (pools s) (xs @ c # ys @ fl)),
                    pools := pools s |` (- set (xs @ c # ys @ fl)),
                    m_current := None, m_freeList := None\<rparr>" and hb: "heap_bounded s'"
    by simp_all
  have "pool_inv s'"
    using hb by (simp add: pool_inv_def s')
  moreover have "first_dead s'"
    using first by (simp add: first_dead_def s' ps)
  ultimately show ?thesis ..
qed

lemma reserve_keeps_inv:
  assumes "pool_inv s" "reserve m s = Some (Inr s')"
  shows "pool_inv s' \<and> first_dead s'"
proof -
  from clear_preserves_inv [OF assms(1)] obtain s1 where
    cl: "clear s = Some (Inr s1)" and e: "m_current s1 = None" "m_freeList s1 = None"
    and hb: "heap_bounded s1" by blast
  from reserve_result [OF cl hb e, where m = m] assms(2) show ?thesis
    by (auto simp: first_dead_def)
qed

lemma resize_keeps_inv:
  assumes inv: "pool_inv s" and fd: "first_dead s" and r: "resize g s = Inr s'"
  shows "pool_inv s' \<and> first_dead s'"
proof (cases "m_current s")
  case None
  with inv have e: "m_freeList s = None" "heap_bounded s"
    by (auto simp: pool_inv_def layout_def)
  show ?thesis
  proof (cases "m_first s")
    case (Some p)
    with None e(1) have "resize g s = Inl NullDeref"
      by (intro resize_after_clear_faults) simp_all
    with r show ?thesis by simp
  next
    case fn: None
    let ?s = "s\<lparr>arrays := (arrays s)(fresh s \<mapsto> g),
             pools := (pools s)
               (Suc (fresh s) \<mapsto>
                  \<lparr>m_poolsize = g, m_pool = Some (fresh s), m_currentIdx = 0, m_next = None\<rparr>),
             fresh := Suc (Suc (fresh s)),
             m_first := Some (Suc (fresh s)),
             m_current := Some (Suc (fresh s)),
             m_freeList := None,
             m_capacity := m_capacity s + g\<rparr>"
    have "resize g s = resize_grow g s"
      using None by (simp add: resize_def)
    also have "\<dots> = Inr ?s"
      using e(1) unfolding resize_grow_empty [OF fn] by (cases s) simp
    finally have "s' = ?s"
      using r by simp
    moreover have "layout ?s [] (Suc (fresh s)) [] []"
      using e(2) by (rule layout_single)
    ultimately show ?thesis
      by (simp add: layout_inv)
  qed
next
  case (Some c0)
  with inv obtain xs c ys fl where lay: "layout s xs c ys fl"
    by (auto simp: pool_inv_def)
  from layout_current [OF lay] obtain d where c: "pools s c = Some d" by blast
  have cur: "m_current s = Some c"
    using lay by (simp add: layout_def)
  show ?thesis
  proof (cases "g < m_poolsize d")
    case True
    then have "resize g s = Inr s"
      using cur c by (simp add: resize_def)
    with r inv fd show ?thesis by simp
  next
    case False
    then have rg: "resize g s = resize_grow g s" and le: "m_poolsize d \<le> g"
      using cur c by (simp_all add: resize_def)
    show ?thesis
    proof (cases fl)
      case Nil
      with lay have "layout s xs c ys []" by simp
      from resize_grow_fresh [OF this c le] rg r
      have "layout s' (xs @ [c]) (Suc (fresh s)) [] []"
        by simp
      then show ?thesis
        by (rule layout_inv)
    next
      case (Cons f fl')
      with lay have "layout s xs c ys (f # fl')" by simp
      from resize_grow_reuse [OF this c] rg r
      have "layout s' (xs @ [c]) f [] fl'"
        by simp
      then show ?thesis
        by (rule layout_inv)
    qed
  qed
qed

lemma reset_keeps_inv:
  assumes "pool_inv s" "first_dead s"
  shows "(pool_inv (reset s) \<and> first_dead (reset s)) \<or> dangling (reset s)"
proof (cases "m_current s = None \<and> m_first s \<noteq> None")
  case True
  with assms(2) have "dangling (reset s)"
    by (auto simp: first_dead_def dangling_def reset_def)
  then show ?thesis ..
next
  case False
  then have c: "m_current s = None \<longrightarrow> m_first s = None" by blast
  from reset_preserves_inv [OF assms(1) c] have "pool_inv (reset s)" .
  moreover have "first_dead (reset s)"
    by (auto simp: first_dead_def reset_def)
  ultimately show ?thesis by blast
qed

lemma reachable_inv: "reachable s \<Longrightarrow> (pool_inv s \<and> first_dead s) \<or> dangling s"
proof (induction rule: reachable.induct)
  case r_default
  show ?case
    using default_inv
    by (simp add: first_dead_def TPoolAllocator_default_def empty_memory_def)
next
  case (r_numItems n)
  show ?case
    using ctor_inv [of n] by (simp add: first_dead_def ctor_numItems_state)
next
  case (r_alloc s r s')
  from r_alloc.IH show ?case
  proof
    assume "pool_inv s \<and> first_dead s"
    with r_alloc.hyps(2) show ?thesis by (blast dest: alloc_keeps_inv)
  next
    assume "dangling s"
    from dangling_faults(1) [OF this] r_alloc.hyps(2) show ?thesis by simp
  qed
next
  case (r_release s s')
  from r_release.IH show ?case
  proof
    assume "pool_inv s \<and> first_dead s"
    with r_release.hyps(2) show ?thesis by (blast dest: release_keeps_inv)
  next
    assume "dangling s"
    from dangling_faults(2) [OF this] r_release.hyps(2) show ?thesis by simp
  qed
next
  case (r_reserve s m s')
  from r_reserve.IH show ?case
  proof
    assume "pool_inv s \<and> first_dead s"
    with r_reserve.hyps(2) show ?thesis by (blast dest: reserve_keeps_inv)
  next
    assume "dangling s"
    from dangling_faults(4) [OF this, of m] r_reserve.hyps(2) show ?thesis by simp
  qed
next
  case (r_clear s s')
  from r_clear.IH show ?case
  proof
    assume "pool_inv s \<and> first_dead s"
    with r_clear.hyps(2) show ?thesis by (blast dest: clear_keeps_inv)
  next
    assume "dangling s"
    from dangling_faults(3) [OF this] r_clear.hyps(2) show ?thesis by simp
  qed
next
  case (r_resize s g s')
  from r_resize.IH show ?case
  proof
    assume "pool_inv s \<and> first_dead s"
    with r_resize.hyps(2) show ?thesis by (blast dest: resize_keeps_inv)
  next
    assume "dangling s"
    from dangling_faults(5) [OF this, of g] r_resize.hyps(2) show ?thesis by simp
  qed
next
  case (r_reset s)
  from r_reset.IH show ?case
  proof
    assume "pool_inv s \<and> first_dead s"
    then show ?thesis by (blast dest: reset_keeps_inv)
  next
    assume "dangling s"
    from dangling_faults(6) [OF this] show ?thesis ..
  qed
qed

lemma reachable_live_inv:
  assumes "reachable s" "m_current s = Some c" "pools s c = Some d"
  shows "pool_inv s"
  using reachable_inv [OF assms(1)] assms(2,3) by (auto simp: dangling_def)

lemma reachable_alloc_n:
  "reachable s \<Longrightarrow> alloc_n k s = Inr (rs, s') \<Longrightarrow> reachable s'"
proof (induction k arbitrary: s rs)
  case 0
  then show ?case by simp
next
  case (Suc k)
  from Suc.prems(2) obtain r s0 rs0 where
    a: "alloc s = Inr (r, s0)" "alloc_n k s0 = Inr (rs0, s')"
    by (auto split: sum.splits prod.splits)
  from Suc.prems(1) a(1) have "reachable s0" by (rule r_alloc)
  then show ?case using a(2) by (rule Suc.IH)
qed

section \<open>Allocation from a constructed pool\<close>

lemma of_nat_less_size:
  fixes n :: size_t
  assumes "i < unat n"
  shows "of_nat i < n"
proof -
  have "i < 2 ^ LENGTH(64)"
    using assms unsigned_less [of n] by (rule less_trans)
  then have "unat (of_nat i :: size_t) = i"
    by (rule of_nat_inverse [OF refl])
  with assms show ?thesis
    by (simp add: word_less_nat_alt)
qed

lemma of_nat_inj_below:
  fixes n :: size_t
  assumes "i < unat n" "j < unat n" "(of_nat i :: size_t) = of_nat j"
  shows "i = j"
proof -
  have "i < 2 ^ LENGTH(64)"
    using assms(1) unsigned_less [of n] by (rule less_trans)
  then have i: "unat (of_nat i :: size_t) = i"
    by (rule of_nat_inverse [OF refl])
  have "j < 2 ^ LENGTH(64)"
    using assms(2) unsigned_less [of n] by (rule less_trans)
  then have "unat (of_nat j :: size_t) = j"
    by (rule of_nat_inverse [OF refl])
  with i assms(3) show ?thesis by simp
qed

lemma slots_distinct:
  fixes n :: size_t
  shows "distinct (map (\<lambda>j. Some (b, of_nat j :: size_t)) [0..<unat n])"
  by (auto simp: distinct_map inj_on_def dest: of_nat_inj_below)

lemma alloc_n_ctor:
  "alloc_n (unat n) (TPoolAllocator_numItems n) =
     Inr (map (\<lambda>j. Some (0, of_nat j)) [0..<unat n],
          \<lparr>pools = [1 \<mapsto> \<lparr>m_poolsize = n, m_pool = Some 0, m_currentIdx = n, m_next = None\<rparr>],
           arrays = [0 \<mapsto> n], fresh = 2,
           m_first = Some 1, m_current = Some 1, m_freeList = None, m_capacity = n\<rparr>)"
proof -
  let ?d = "\<lparr>m_poolsize = n, m_pool = Some 0, m_currentIdx = 0, m_next = None\<rparr>"
  have "alloc_n (unat n) (TPoolAllocator_numItems n) =
     Inr (map (\<lambda>j. Some (0, of_nat j)) [0..<0 + unat n],
          (TPoolAllocator_numItems n)\<lparr>pools := (pools (TPoolAllocator_numItems n))
             (1 \<mapsto> ?d\<lparr>m_currentIdx := of_nat (0 + unat n)\<rparr>)\<rparr>)"
    by (rule alloc_n_within) (simp_all add: ctor_numItems_state)
  then show ?thesis
    by (simp add: ctor_numItems_state)
qed

lemma alloc_full_ctor:
  "alloc \<lparr>pools = [1 \<mapsto> \<lparr>m_poolsize = n, m_pool = Some 0, m_currentIdx = n, m_next = None\<rparr>],
           arrays = [0 \<mapsto> n], fresh = 2,
           m_first = Some 1, m_current = Some 1, m_freeList = None, m_capacity = n\<rparr> =
   Inr (Some (2, 0),
        \<lparr>pools = [1 \<mapsto> \<lparr>m_poolsize = n, m_pool = Some 0, m_currentIdx = n, m_next = Some 3\<rparr>,
                  3 \<mapsto> \<lparr>m_poolsize = n, m_pool = Some 2, m_currentIdx = 1, m_next = None\<rparr>],
         arrays = [0 \<mapsto> n, 2 \<mapsto> n], fresh = 4,
         m_first = Some 1, m_current = Some 3, m_freeList = None, m_capacity = n + n\<rparr>)"
  by (simp add: alloc_def resize_def resize_grow_def getFreePool_def new_Pool_def new_array_def
      fun_eq_iff)


text \<open>
  C4. A pool is constructed with \<open>n > 0\<close> elements. The first \<open>n\<close> calls of \<open>alloc()\<close>
  return \<open>n\<close> pairwise distinct non-null pointers, each to a slot within the \<open>n\<close>
  elements of the first chunk's array (array 0); the chunk is then full
  (\<open>freeMem() = 0\<close>) and the capacity is still \<open>n\<close>. The next call does not return
  null and does not return one of the slots already handed out: it creates a new chunk
  (chunk 3, with the new array 2 of \<open>n\<close> elements), makes it the active chunk, returns
  its first slot, and the capacity becomes \<open>n + n\<close> (8 for \<open>n = 4\<close>).
\<close>

theorem first_allocs_then_growth:
  assumes "0 < n"
  shows "\<exists>ptrs s1 s2.
     alloc_n (unat n) (TPoolAllocator_numItems n) = Inr (ptrs, s1) \<and>
     length ptrs = unat n \<and> distinct ptrs \<and>
     (\<forall>q\<in>set ptrs. \<exists>i. q = Some (0, i) \<and> i < n) \<and>
     arrays s1 0 = Some n \<and> m_current s1 = Some 1 \<and> capacity s1 = n \<and>
     freeMem s1 = Inr 0 \<and>
     alloc s1 = Inr (Some (2, 0), s2) \<and> Some (2, 0) \<notin> set ptrs \<and>
     arrays s1 2 = None \<and> arrays s2 2 = Some n \<and> arrays s2 0 = Some n \<and>
     m_current s2 = Some 3 \<and> pools s1 3 = None \<and>
     pools s2 3 = Some \<lparr>m_poolsize = n, m_pool = Some 2, m_currentIdx = 1, m_next = None\<rparr> \<and>
     capacity s2 = n + n"
proof -
  define ptrs where "ptrs = map (\<lambda>j. Some (0::addr, of_nat j :: size_t)) [0..<unat n]"
  define s1 where "s1 =
     \<lparr>pools = [1 \<mapsto> \<lparr>m_poolsize = n, m_pool = Some 0, m_currentIdx = n, m_next = None\<rparr>],
      arrays = [0 \<mapsto> n], fresh = 2,
      m_first = Some 1, m_current = Some 1, m_freeList = None, m_capacity = n\<rparr>"
  define s2 where "s2 =
     \<lparr>pools = [1 \<mapsto> \<lparr>m_poolsize = n, m_pool = Some 0, m_currentIdx = n, m_next = Some 3\<rparr>,
               3 \<mapsto> \<lparr>m_poolsize = n, m_pool = Some 2, m_currentIdx = 1, m_next = None\<rparr>],
      arrays = [0 \<mapsto> n, 2 \<mapsto> n], fresh = 4,
      m_first = Some 1, m_current = Some 3, m_freeList = None, m_capacity = n + n\<rparr>"
  have 1: "alloc_n (unat n) (TPoolAllocator_numItems n) = Inr (ptrs, s1)"
    unfolding ptrs_def s1_def by (rule alloc_n_ctor)
  have 2: "length ptrs = unat n"
    by (simp add: ptrs_def)
  have 3: "distinct ptrs"
    unfolding ptrs_def by (rule slots_distinct)
  have 4: "\<forall>q\<in>set ptrs. \<exists>i. q = Some (0, i) \<and> i < n"
    by (auto simp: ptrs_def intro: of_nat_less_size)
  have 5: "arrays s1 0 = Some n" "m_current s1 = Some 1" "capacity s1 = n"
    "freeMem s1 = Inr 0" "arrays s1 2 = None" "pools s1 3 = None"
    by (simp_all add: s1_def capacity_def freeMem_def)
  have 6: "alloc s1 = Inr (Some (2, 0), s2)"
    unfolding s1_def s2_def by (rule alloc_full_ctor)
  have 7: "Some (2, 0) \<notin> set ptrs"
    by (auto simp: ptrs_def)
  have 8: "arrays s2 2 = Some n" "arrays s2 0 = Some n" "m_current s2 = Some 3"
    "pools s2 3 = Some \<lparr>m_poolsize = n, m_pool = Some 2, m_currentIdx = 1, m_next = None\<rparr>"
    "capacity s2 = n + n"
    by (simp_all add: s2_def capacity_def)
  show ?thesis
    by (intro exI [of _ ptrs] exI [of _ s1] exI [of _ s2] conjI) (fact 1 2 3 4 5 6 7 8)+
qed

theorem first_allocs_then_growth_witness:
  "(0 :: size_t) < 4 \<and>
   (\<exists>ptrs s1 s2.
     alloc_n 4 (TPoolAllocator_numItems 4) = Inr (ptrs, s1) \<and>
     length ptrs = 4 \<and> distinct ptrs \<and>
     (\<forall>q\<in>set ptrs. \<exists>i. q = Some (0, i) \<and> i < 4) \<and>
     capacity s1 = 4 \<and> freeMem s1 = Inr 0 \<and>
     alloc s1 = Inr (Some (2, 0), s2) \<and> Some (2, 0) \<notin> set ptrs \<and>
     capacity s2 = 8)"
proof -
  have pos: "(0 :: size_t) < 4" by simp
  from first_allocs_then_growth [OF pos] obtain ptrs s1 s2 where
    "alloc_n (unat (4 :: size_t)) (TPoolAllocator_numItems 4) = Inr (ptrs, s1)"
    "length ptrs = unat (4 :: size_t)" "distinct ptrs"
    "\<forall>q\<in>set ptrs. \<exists>i. q = Some (0, i) \<and> i < 4"
    "capacity s1 = 4" "freeMem s1 = Inr 0"
    "alloc s1 = Inr (Some (2, 0), s2)" "Some (2, 0) \<notin> set ptrs"
    "capacity s2 = 4 + 4"
    by blast
  then show ?thesis
    using pos by (intro conjI exI [of _ ptrs] exI [of _ s1] exI [of _ s2]) simp_all
qed

lemma release_two_chunks:
  "release \<lparr>pools = [1 \<mapsto> \<lparr>m_poolsize = n, m_pool = Some 0, m_currentIdx = n, m_next = Some 3\<rparr>,
                  3 \<mapsto> \<lparr>m_poolsize = n, m_pool = Some 2, m_currentIdx = 1, m_next = None\<rparr>],
         arrays = [0 \<mapsto> n, 2 \<mapsto> n], fresh = 4,
         m_first = Some 1, m_current = Some 3, m_freeList = None, m_capacity = n + n\<rparr> =
   Some (Inr
       \<lparr>pools = [1 \<mapsto> \<lparr>m_poolsize = n, m_pool = Some 0, m_currentIdx = 0, m_next = Some 3\<rparr>,
                  3 \<mapsto> \<lparr>m_poolsize = n, m_pool = Some 2, m_currentIdx = 0, m_next = None\<rparr>],
         arrays = [0 \<mapsto> n, 2 \<mapsto> n], fresh = 4,
         m_first = Some 1, m_current = Some 1, m_freeList = Some 3, m_capacity = n + n\<rparr>)"
  by (simp add: release_def release_loop.simps deref_def fun_eq_iff)

lemma alloc_n_released:
  "alloc_n (unat n)
       \<lparr>pools = [1 \<mapsto> \<lparr>m_poolsize = n, m_pool = Some 0, m_currentIdx = 0, m_next = Some 3\<rparr>,
                  3 \<mapsto> \<lparr>m_poolsize = n, m_pool = Some 2, m_currentIdx = 0, m_next = None\<rparr>],
         arrays = [0 \<mapsto> n, 2 \<mapsto> n], fresh = 4,
         m_first = Some 1, m_current = Some 1, m_freeList = Some 3, m_capacity = n + n\<rparr> =
   Inr (map (\<lambda>j. Some (0, of_nat j)) [0..<unat n],
       \<lparr>pools = [1 \<mapsto> \<lparr>m_poolsize = n, m_pool = Some 0, m_currentIdx = n, m_next = Some 3\<rparr>,
                  3 \<mapsto> \<lparr>m_poolsize = n, m_pool = Some 2, m_currentIdx = 0, m_next = None\<rparr>],
         arrays = [0 \<mapsto> n, 2 \<mapsto> n], fresh = 4,
         m_first = Some 1, m_current = Some 1, m_freeList = Some 3, m_capacity = n + n\<rparr>)"
  (is "alloc_n _ ?s = _")
proof -
  let ?d = "\<lparr>m_poolsize = n, m_pool = Some 0, m_currentIdx = 0, m_next = Some 3\<rparr>"
  have "alloc_n (unat n) ?s =
     Inr (map (\<lambda>j. Some (0, of_nat j)) [0..<0 + unat n],
          ?s\<lparr>pools := (pools ?s)(1 \<mapsto> ?d\<lparr>m_currentIdx := of_nat (0 + unat n)\<rparr>)\<rparr>)"
    by (rule alloc_n_within) simp_all
  then show ?thesis
    by (simp add: fun_eq_iff)
qed

lemma alloc_full_released:
  "alloc \<lparr>pools = [1 \<mapsto> \<lparr>m_poolsize = n, m_pool = Some 0, m_currentIdx = n, m_next = Some 3\<rparr>,
                  3 \<mapsto> \<lparr>m_poolsize = n, m_pool = Some 2, m_currentIdx = 0, m_next = None\<rparr>],
         arrays = [0 \<mapsto> n, 2 \<mapsto> n], fresh = 4,
         m_first = Some 1, m_current = Some 1, m_freeList = Some 3, m_capacity = n + n\<rparr> =
   Inr (Some (2, 0),
        \<lparr>pools = [1 \<mapsto> \<lparr>m_poolsize = n, m_pool = Some 0, m_currentIdx = n, m_next = Some 3\<rparr>,
                  3 \<mapsto> \<lparr>m_poolsize = n, m_pool = Some 2, m_currentIdx = 1, m_next = None\<rparr>],
         arrays = [0 \<mapsto> n, 2 \<mapsto> n], fresh = 4,
         m_first = Some 1, m_current = Some 3, m_freeList = None, m_capacity = n + n\<rparr>)"
  by (simp add: alloc_def resize_def resize_grow_def getFreePool_def fun_eq_iff)

text \<open>
  C6. The round trip: construct with \<open>n\<close> elements, allocate \<open>n + 1\<close> objects (the last
  one forces growth, capacity \<open>n + n\<close>), \<open>release()\<close> (the second chunk, chunk 3, is now the
  free list), allocate \<open>n + 1\<close> objects again. The second growth takes chunk 3 from the
  free list: nothing is allocated (\<open>fresh\<close> and the arrays are unchanged), the capacity
  is what it was after the first growth, and the pool is in exactly the state it had
  after the first \<open>n + 1\<close> allocations.
\<close>

theorem second_growth_reuses_chunk:
  "\<exists>ps1 s1 s2 ps2 s3.
     alloc_n (unat n + 1) (TPoolAllocator_numItems n) = Inr (ps1, s1) \<and>
     capacity s1 = n + n \<and>
     release s1 = Some (Inr s2) \<and> m_freeList s2 = Some 3 \<and>
     alloc_n (unat n + 1) s2 = Inr (ps2, s3) \<and>
     m_current s3 = Some 3 \<and> m_freeList s3 = None \<and>
     capacity s3 = capacity s1 \<and> fresh s3 = fresh s1 \<and> arrays s3 = arrays s1 \<and>
     s3 = s1"
proof -
  define ptrs where
    "ptrs = map (\<lambda>j. Some (0::addr, of_nat j :: size_t)) [0..<unat n] @ [Some (2, 0)]"
  define s1 where "s1 =
     \<lparr>pools = [1 \<mapsto> \<lparr>m_poolsize = n, m_pool = Some 0, m_currentIdx = n, m_next = Some 3\<rparr>,
               3 \<mapsto> \<lparr>m_poolsize = n, m_pool = Some 2, m_currentIdx = 1, m_next = None\<rparr>],
      arrays = [0 \<mapsto> n, 2 \<mapsto> n], fresh = 4,
      m_first = Some 1, m_current = Some 3, m_freeList = None, m_capacity = n + n\<rparr>"
  define s2 where "s2 =
     \<lparr>pools = [1 \<mapsto> \<lparr>m_poolsize = n, m_pool = Some 0, m_currentIdx = 0, m_next = Some 3\<rparr>,
               3 \<mapsto> \<lparr>m_poolsize = n, m_pool = Some 2, m_currentIdx = 0, m_next = None\<rparr>],
      arrays = [0 \<mapsto> n, 2 \<mapsto> n], fresh = 4,
      m_first = Some 1, m_current = Some 1, m_freeList = Some 3, m_capacity = n + n\<rparr>"
  have 1: "alloc_n (unat n + 1) (TPoolAllocator_numItems n) = Inr (ptrs, s1)"
    using alloc_n_add [OF alloc_n_ctor alloc_n_one [OF alloc_full_ctor], of n]
    by (simp only: One_nat_def ptrs_def s1_def)
  have 2: "release s1 = Some (Inr s2)"
    unfolding s1_def s2_def by (rule release_two_chunks)
  have 3: "alloc_n (unat n + 1) s2 = Inr (ptrs, s1)"
    using alloc_n_add [OF alloc_n_released alloc_n_one [OF alloc_full_released], of n]
    by (simp only: One_nat_def ptrs_def s1_def s2_def)
  have 4: "capacity s1 = n + n" "m_current s1 = Some 3" "m_freeList s1 = None"
    by (simp_all add: s1_def capacity_def)
  have 5: "m_freeList s2 = Some 3"
    by (simp add: s2_def)
  show ?thesis
    by (intro exI [of _ ptrs] exI [of _ s1] exI [of _ s2] conjI) (fact 1 2 3 4 5 refl)+
qed

lemma ctor_cursors_ok: "0 < n \<Longrightarrow> cursors_ok (TPoolAllocator_numItems n)"
  by (simp add: ctor_numItems_state cursors_ok_def)

lemma reach_full_ctor:
  "reachable
     \<lparr>pools = [1 \<mapsto> \<lparr>m_poolsize = n, m_pool = Some 0, m_currentIdx = n, m_next = None\<rparr>],
      arrays = [0 \<mapsto> n], fresh = 2,
      m_first = Some 1, m_current = Some 1, m_freeList = None, m_capacity = n\<rparr>"
  using r_numItems alloc_n_ctor by (rule reachable_alloc_n)

lemma reach_two_chunks:
  "reachable
     \<lparr>pools = [1 \<mapsto> \<lparr>m_poolsize = n, m_pool = Some 0, m_currentIdx = n, m_next = Some 3\<rparr>,
               3 \<mapsto> \<lparr>m_poolsize = n, m_pool = Some 2, m_currentIdx = 1, m_next = None\<rparr>],
      arrays = [0 \<mapsto> n, 2 \<mapsto> n], fresh = 4,
      m_first = Some 1, m_current = Some 3, m_freeList = None, m_capacity = n + n\<rparr>"
  using reach_full_ctor alloc_full_ctor by (rule r_alloc)

lemma reach_released:
  "reachable
     \<lparr>pools = [1 \<mapsto> \<lparr>m_poolsize = n, m_pool = Some 0, m_currentIdx = 0, m_next = Some 3\<rparr>,
               3 \<mapsto> \<lparr>m_poolsize = n, m_pool = Some 2, m_currentIdx = 0, m_next = None\<rparr>],
      arrays = [0 \<mapsto> n, 2 \<mapsto> n], fresh = 4,
      m_first = Some 1, m_current = Some 1, m_freeList = Some 3, m_capacity = n + n\<rparr>"
  using reach_two_chunks release_two_chunks by (rule r_release)

lemma reach_released_full:
  "reachable
     \<lparr>pools = [1 \<mapsto> \<lparr>m_poolsize = n, m_pool = Some 0, m_currentIdx = n, m_next = Some 3\<rparr>,
               3 \<mapsto> \<lparr>m_poolsize = n, m_pool = Some 2, m_currentIdx = 0, m_next = None\<rparr>],
      arrays = [0 \<mapsto> n, 2 \<mapsto> n], fresh = 4,
      m_first = Some 1, m_current = Some 1, m_freeList = Some 3, m_capacity = n + n\<rparr>"
  using reach_released alloc_n_released by (rule reachable_alloc_n)

lemma reach_second_full:
  "reachable
     \<lparr>pools = [1 \<mapsto> \<lparr>m_poolsize = 4, m_pool = Some 0, m_currentIdx = 4, m_next = Some 3\<rparr>,
               3 \<mapsto> \<lparr>m_poolsize = 4, m_pool = Some 2, m_currentIdx = 4, m_next = None\<rparr>],
      arrays = [0 \<mapsto> 4, 2 \<mapsto> 4], fresh = 4,
      m_first = Some 1, m_current = Some 3, m_freeList = None, m_capacity = 8\<rparr>"
proof -
  let ?d = "\<lparr>m_poolsize = 4 :: size_t, m_pool = Some 2, m_currentIdx = 1, m_next = None\<rparr>"
  let ?s = "\<lparr>pools = [1 \<mapsto> \<lparr>m_poolsize = 4, m_pool = Some 0, m_currentIdx = 4, m_next = Some 3\<rparr>,
               3 \<mapsto> ?d],
      arrays = [0 \<mapsto> 4, 2 \<mapsto> 4], fresh = 4,
      m_first = Some 1, m_current = Some 3, m_freeList = None, m_capacity = 8\<rparr>"
  have r: "reachable ?s"
    using reach_two_chunks [of 4] by simp
  have "alloc_n 3 ?s =
     Inr (map (\<lambda>j. Some (2, of_nat j)) [1..<1 + 3],
          ?s\<lparr>pools := (pools ?s)(3 \<mapsto> ?d\<lparr>m_currentIdx := of_nat (1 + 3)\<rparr>)\<rparr>)"
    by (rule alloc_n_within) simp_all
  with r have "reachable (?s\<lparr>pools := (pools ?s)(3 \<mapsto> ?d\<lparr>m_currentIdx := of_nat (1 + 3)\<rparr>)\<rparr>)"
    by (rule reachable_alloc_n)
  moreover have "?s\<lparr>pools := (pools ?s)(3 \<mapsto> ?d\<lparr>m_currentIdx := of_nat (1 + 3)\<rparr>)\<rparr> =
     \<lparr>pools = [1 \<mapsto> \<lparr>m_poolsize = 4, m_pool = Some 0, m_currentIdx = 4, m_next = Some 3\<rparr>,
               3 \<mapsto> \<lparr>m_poolsize = 4, m_pool = Some 2, m_currentIdx = 4, m_next = None\<rparr>],
      arrays = [0 \<mapsto> 4, 2 \<mapsto> 4], fresh = 4,
      m_first = Some 1, m_current = Some 3, m_freeList = None, m_capacity = 8\<rparr>"
    by (simp add: fun_eq_iff)
  ultimately show ?thesis by simp
qed

lemma alloc_third_chunk:
  "alloc
     \<lparr>pools = [1 \<mapsto> \<lparr>m_poolsize = 4, m_pool = Some 0, m_currentIdx = 4, m_next = Some 3\<rparr>,
               3 \<mapsto> \<lparr>m_poolsize = 4, m_pool = Some 2, m_currentIdx = 4, m_next = None\<rparr>],
      arrays = [0 \<mapsto> 4, 2 \<mapsto> 4], fresh = 4,
      m_first = Some 1, m_current = Some 3, m_freeList = None, m_capacity = 8\<rparr> =
   Inr (Some (4, 0),
     \<lparr>pools = [1 \<mapsto> \<lparr>m_poolsize = 4, m_pool = Some 0, m_currentIdx = 4, m_next = Some 3\<rparr>,
               3 \<mapsto> \<lparr>m_poolsize = 4, m_pool = Some 2, m_currentIdx = 4, m_next = Some 5\<rparr>,
               5 \<mapsto> \<lparr>m_poolsize = 4, m_pool = Some 4, m_currentIdx = 1, m_next = None\<rparr>],
      arrays = [0 \<mapsto> 4, 2 \<mapsto> 4, 4 \<mapsto> 4], fresh = 6,
      m_first = Some 1, m_current = Some 5, m_freeList = None, m_capacity = 12\<rparr>)"
  by (simp add: alloc_def resize_def resize_grow_def getFreePool_def new_Pool_def new_array_def
      fun_eq_iff)

lemma release_three_chunks:
  "release
     \<lparr>pools = [1 \<mapsto> \<lparr>m_poolsize = 4, m_pool = Some 0, m_currentIdx = 4, m_next = Some 3\<rparr>,
               3 \<mapsto> \<lparr>m_poolsize = 4, m_pool = Some 2, m_currentIdx = 4, m_next = Some 5\<rparr>,
               5 \<mapsto> \<lparr>m_poolsize = 4, m_pool = Some 4, m_currentIdx = 1, m_next = None\<rparr>],
      arrays = [0 \<mapsto> 4, 2 \<mapsto> 4, 4 \<mapsto> 4], fresh = 6,
      m_first = Some 1, m_current = Some 5, m_freeList = None, m_capacity = 12\<rparr> =
   Some (Inr
     \<lparr>pools = [1 \<mapsto> \<lparr>m_poolsize = 4, m_pool = Some 0, m_currentIdx = 0, m_next = Some 3\<rparr>,
               3 \<mapsto> \<lparr>m_poolsize = 4, m_pool = Some 2, m_currentIdx = 0, m_next = Some 5\<rparr>,
               5 \<mapsto> \<lparr>m_poolsize = 4, m_pool = Some 4, m_currentIdx = 0, m_next = None\<rparr>],
      arrays = [0 \<mapsto> 4, 2 \<mapsto> 4, 4 \<mapsto> 4], fresh = 6,
      m_first = Some 1, m_current = Some 1, m_freeList = Some 3, m_capacity = 12\<rparr>)"
  by (simp add: release_def release_loop.simps deref_def fun_eq_iff)

lemma reach_three_released_full:
  "reachable
     \<lparr>pools = [1 \<mapsto> \<lparr>m_poolsize = 4, m_pool = Some 0, m_currentIdx = 4, m_next = Some 3\<rparr>,
               3 \<mapsto> \<lparr>m_poolsize = 4, m_pool = Some 2, m_currentIdx = 0, m_next = Some 5\<rparr>,
               5 \<mapsto> \<lparr>m_poolsize = 4, m_pool = Some 4, m_currentIdx = 0, m_next = None\<rparr>],
      arrays = [0 \<mapsto> 4, 2 \<mapsto> 4, 4 \<mapsto> 4], fresh = 6,
      m_first = Some 1, m_current = Some 1, m_freeList = Some 3, m_capacity = 12\<rparr>"
proof -
  let ?d = "\<lparr>m_poolsize = 4 :: size_t, m_pool = Some 0, m_currentIdx = 0, m_next = Some 3\<rparr>"
  let ?s = "\<lparr>pools = [1 \<mapsto> ?d,
               3 \<mapsto> \<lparr>m_poolsize = 4, m_pool = Some 2, m_currentIdx = 0, m_next = Some 5\<rparr>,
               5 \<mapsto> \<lparr>m_poolsize = 4, m_pool = Some 4, m_currentIdx = 0, m_next = None\<rparr>],
      arrays = [0 \<mapsto> 4, 2 \<mapsto> 4, 4 \<mapsto> 4], fresh = 6,
      m_first = Some 1, m_current = Some 1, m_freeList = Some 3, m_capacity = 12\<rparr>"
  have "reachable
     \<lparr>pools = [1 \<mapsto> \<lparr>m_poolsize = 4, m_pool = Some 0, m_currentIdx = 4, m_next = Some 3\<rparr>,
               3 \<mapsto> \<lparr>m_poolsize = 4, m_pool = Some 2, m_currentIdx = 4, m_next = Some 5\<rparr>,
               5 \<mapsto> \<lparr>m_poolsize = 4, m_pool = Some 4, m_currentIdx = 1, m_next = None\<rparr>],
      arrays = [0 \<mapsto> 4, 2 \<mapsto> 4, 4 \<mapsto> 4], fresh = 6,
      m_first = Some 1, m_current = Some 5, m_freeList = None, m_capacity = 12\<rparr>"
    using reach_second_full alloc_third_chunk by (rule r_alloc)
  from this release_three_chunks have r: "reachable ?s"
    by (rule r_release)
  have "alloc_n 4 ?s =
     Inr (map (\<lambda>j. Some (0, of_nat j)) [0..<0 + 4],
          ?s\<lparr>pools := (pools ?s)(1 \<mapsto> ?d\<lparr>m_currentIdx := of_nat (0 + 4)\<rparr>)\<rparr>)"
    by (rule alloc_n_within) simp_all
  with r have "reachable (?s\<lparr>pools := (pools ?s)(1 \<mapsto> ?d\<lparr>m_currentIdx := of_nat (0 + 4)\<rparr>)\<rparr>)"
    by (rule reachable_alloc_n)
  moreover have "?s\<lparr>pools := (pools ?s)(1 \<mapsto> ?d\<lparr>m_currentIdx := of_nat (0 + 4)\<rparr>)\<rparr> =
     \<lparr>pools = [1 \<mapsto> \<lparr>m_poolsize = 4, m_pool = Some 0, m_currentIdx = 4, m_next = Some 3\<rparr>,
               3 \<mapsto> \<lparr>m_poolsize = 4, m_pool = Some 2, m_currentIdx = 0, m_next = Some 5\<rparr>,
               5 \<mapsto> \<lparr>m_poolsize = 4, m_pool = Some 4, m_currentIdx = 0, m_next = None\<rparr>],
      arrays = [0 \<mapsto> 4, 2 \<mapsto> 4, 4 \<mapsto> 4], fresh = 6,
      m_first = Some 1, m_current = Some 1, m_freeList = Some 3, m_capacity = 12\<rparr>"
    by (simp add: fun_eq_iff)
  ultimately show ?thesis by simp
qed

section \<open>What alloc returns\<close>

text \<open>
  C3, the claim as stated, at a pool constructed with size 0. The pool has an active
  chunk and \<open>alloc()\<close> returns a non-null pointer, but not to a slot: the chunk it grows
  into (chunk 3) owns the array 2 of 0 elements, the pointer is the address of element 0
  of that empty array, and the cursor (1) is then beyond the chunk's size (0).
\<close>

theorem alloc_zero_size_pool:
  "alloc (TPoolAllocator_numItems 0) =
     Inr (Some (2, 0),
          \<lparr>pools = [1 \<mapsto> \<lparr>m_poolsize = 0, m_pool = Some 0, m_currentIdx = 0, m_next = Some 3\<rparr>,
                    3 \<mapsto> \<lparr>m_poolsize = 0, m_pool = Some 2, m_currentIdx = 1, m_next = None\<rparr>],
           arrays = [0 \<mapsto> 0, 2 \<mapsto> 0], fresh = 4,
           m_first = Some 1, m_current = Some 3, m_freeList = None, m_capacity = 0\<rparr>) \<and>
   m_current (TPoolAllocator_numItems 0) \<noteq> None"
  using alloc_full_ctor [of 0] by (simp add: ctor_numItems_state)

text \<open>
  C3, amended. \<open>alloc()\<close> returns null exactly when \<open>m_current\<close> is null: with
  \<open>m_current\<close> null it returns null and changes nothing, and whenever it returns null
  \<open>m_current\<close> was null. In every reachable state whose active chunk \<open>c\<close> is live it
  returns, without a fault, a non-null pointer \<open>(b, i)\<close> to the slot at the cursor of the
  chunk \<open>p\<close> that is active after the call, in that chunk's live array \<open>b\<close>, and the only
  change to that chunk is that its cursor is advanced from \<open>i\<close> to \<open>i + 1\<close>.
  If \<open>c\<close> was not full, \<open>p\<close> is \<open>c\<close> itself, \<open>i\<close> is the cursor \<open>c\<close> had before the call,
  and nothing else in the state has changed. If \<open>c\<close> was full, \<open>p\<close> is another chunk
  and \<open>i\<close> is 0: \<open>p\<close> is the head of the free list, whose cursor before the call was 0,
  and it is taken off the free list and linked after \<open>c\<close>; or, with an empty free list,
  \<open>p\<close> is a new chunk of the size of \<open>c\<close> with a new array, linked after \<open>c\<close>. The
  state after the call is given in full in each case. If moreover every live chunk has a
  positive size and a cursor within its size, the slot lies within the array, and this
  property is kept.
\<close>

theorem alloc_null_iff_no_chunk:
  "(m_current s = None \<longrightarrow> alloc s = Inr (None, s)) \<and>
   (\<forall>r s'. alloc s = Inr (r, s') \<longrightarrow> (r = None) = (m_current s = None)) \<and>
   (\<forall>c d0. reachable s \<and> m_current s = Some c \<and> pools s c = Some d0 \<longrightarrow>
      (\<exists>b i s' p d dp. alloc s = Inr (Some (b, i), s') \<and> m_current s' = Some p \<and>
         pools s' p = Some d \<and> m_pool d = Some b \<and> m_currentIdx d = i + 1 \<and>
         arrays s' b = Some (m_poolsize d) \<and>
         m_pool dp = Some b \<and> m_currentIdx dp = i \<and> d = dp\<lparr>m_currentIdx := i + 1\<rparr> \<and>
         (if m_currentIdx d0 = m_poolsize d0
          then p \<noteq> c \<and> i = 0 \<and>
          (case m_freeList s of
             Some f \<Rightarrow> p = f \<and> pools s f = Some dp \<and>
               s' = s\<lparr>m_freeList := m_next dp,
                      pools := (pools s)(c \<mapsto> d0\<lparr>m_next := Some f\<rparr>,
                                         f \<mapsto> dp\<lparr>m_currentIdx := 1\<rparr>),
                      m_current := Some f\<rparr>
           | None \<Rightarrow> pools s p = None \<and> arrays s b = None \<and>
               dp = \<lparr>m_poolsize = m_poolsize d0, m_pool = Some b, m_currentIdx = 0,
                      m_next = None\<rparr> \<and>
               s' = s\<lparr>arrays := (arrays s)(b \<mapsto> m_poolsize d0),
                      pools := (pools s)
                        (c \<mapsto> d0\<lparr>m_next := Some p\<rparr>,
                         p \<mapsto> \<lparr>m_poolsize = m_poolsize d0, m_pool = Some b,
                                m_currentIdx = 1, m_next = None\<rparr>),
                      fresh := Suc (Suc (fresh s)),
                      m_capacity := m_capacity s + m_poolsize d0,
                      m_current := Some p\<rparr>)
          else p = c \<and> dp = d0 \<and>
            s' = s\<lparr>pools := (pools s)(c \<mapsto> d0\<lparr>m_currentIdx := m_currentIdx d0 + 1\<rparr>)\<rparr>) \<and>
         (cursors_ok s \<longrightarrow> i < m_poolsize d \<and> cursors_ok s')))"
proof (intro conjI allI impI)
  assume "m_current s = None"
  then show "alloc s = Inr (None, s)"
    by (simp add: alloc_def)
next
  fix r s'
  assume "alloc s = Inr (r, s')"
  then show "(r = None) = (m_current s = None)"
    by (rule alloc_null_only_without_chunk)
next
  fix c d0
  assume a: "reachable s \<and> m_current s = Some c \<and> pools s c = Some d0"
  then have "pool_inv s"
    by (blast intro: reachable_live_inv)
  from alloc_slot_at_cursor [OF this] a
  show "\<exists>b i s' p d dp. alloc s = Inr (Some (b, i), s') \<and> m_current s' = Some p \<and>
         pools s' p = Some d \<and> m_pool d = Some b \<and> m_currentIdx d = i + 1 \<and>
         arrays s' b = Some (m_poolsize d) \<and>
         m_pool dp = Some b \<and> m_currentIdx dp = i \<and> d = dp\<lparr>m_currentIdx := i + 1\<rparr> \<and>
         (if m_currentIdx d0 = m_poolsize d0
          then p \<noteq> c \<and> i = 0 \<and>
          (case m_freeList s of
             Some f \<Rightarrow> p = f \<and> pools s f = Some dp \<and>
               s' = s\<lparr>m_freeList := m_next dp,
                      pools := (pools s)(c \<mapsto> d0\<lparr>m_next := Some f\<rparr>,
                                         f \<mapsto> dp\<lparr>m_currentIdx := 1\<rparr>),
                      m_current := Some f\<rparr>
           | None \<Rightarrow> pools s p = None \<and> arrays s b = None \<and>
               dp = \<lparr>m_poolsize = m_poolsize d0, m_pool = Some b, m_currentIdx = 0,
                      m_next = None\<rparr> \<and>
               s' = s\<lparr>arrays := (arrays s)(b \<mapsto> m_poolsize d0),
                      pools := (pools s)
                        (c \<mapsto> d0\<lparr>m_next := Some p\<rparr>,
                         p \<mapsto> \<lparr>m_poolsize = m_poolsize d0, m_pool = Some b,
                                m_currentIdx = 1, m_next = None\<rparr>),
                      fresh := Suc (Suc (fresh s)),
                      m_capacity := m_capacity s + m_poolsize d0,
                      m_current := Some p\<rparr>)
          else p = c \<and> dp = d0 \<and>
            s' = s\<lparr>pools := (pools s)(c \<mapsto> d0\<lparr>m_currentIdx := m_currentIdx d0 + 1\<rparr>)\<rparr>) \<and>
         (cursors_ok s \<longrightarrow> i < m_poolsize d \<and> cursors_ok s')"
    by blast
qed

theorem alloc_null_iff_no_chunk_witness:
  "m_current TPoolAllocator_default = None \<and>
   alloc TPoolAllocator_default = Inr (None, TPoolAllocator_default) \<and>
   reachable (TPoolAllocator_numItems 4) \<and> cursors_ok (TPoolAllocator_numItems 4) \<and>
   m_current (TPoolAllocator_numItems 4) = Some 1 \<and>
   pools (TPoolAllocator_numItems 4) 1 =
     Some \<lparr>m_poolsize = 4, m_pool = Some 0, m_currentIdx = 0, m_next = None\<rparr> \<and>
   alloc (TPoolAllocator_numItems 4) =
     Inr (Some (0, 0),
          \<lparr>pools = [1 \<mapsto> \<lparr>m_poolsize = 4, m_pool = Some 0, m_currentIdx = 1, m_next = None\<rparr>],
           arrays = [0 \<mapsto> 4], fresh = 2,
           m_first = Some 1, m_current = Some 1, m_freeList = None, m_capacity = 4\<rparr>) \<and>
   cursors_ok
     \<lparr>pools = [1 \<mapsto> \<lparr>m_poolsize = 4, m_pool = Some 0, m_currentIdx = 1, m_next = None\<rparr>],
      arrays = [0 \<mapsto> 4], fresh = 2,
      m_first = Some 1, m_current = Some 1, m_freeList = None, m_capacity = 4\<rparr> \<and>
   alloc \<lparr>pools = [1 \<mapsto> \<lparr>m_poolsize = 4, m_pool = Some 0, m_currentIdx = 4, m_next = Some 3\<rparr>,
                   3 \<mapsto> \<lparr>m_poolsize = 4, m_pool = Some 2, m_currentIdx = 0, m_next = Some 5\<rparr>,
                   5 \<mapsto> \<lparr>m_poolsize = 4, m_pool = Some 4, m_currentIdx = 0, m_next = None\<rparr>],
          arrays = [0 \<mapsto> 4, 2 \<mapsto> 4, 4 \<mapsto> 4], fresh = 6,
          m_first = Some 1, m_current = Some 1, m_freeList = Some 3, m_capacity = 12\<rparr> =
     Inr (Some (2, 0),
       \<lparr>pools = [1 \<mapsto> \<lparr>m_poolsize = 4, m_pool = Some 0, m_currentIdx = 4, m_next = Some 3\<rparr>,
                 3 \<mapsto> \<lparr>m_poolsize = 4, m_pool = Some 2, m_currentIdx = 1, m_next = Some 5\<rparr>,
                 5 \<mapsto> \<lparr>m_poolsize = 4, m_pool = Some 4, m_currentIdx = 0, m_next = None\<rparr>],
        arrays = [0 \<mapsto> 4, 2 \<mapsto> 4, 4 \<mapsto> 4], fresh = 6,
        m_first = Some 1, m_current = Some 3, m_freeList = Some 5, m_capacity = 12\<rparr>)"
proof -
  let ?a = "\<lparr>m_poolsize = 4 :: size_t, m_pool = Some 0, m_currentIdx = 4, m_next = Some 3\<rparr>"
  let ?w = "\<lparr>pools = [1 \<mapsto> ?a,
                   3 \<mapsto> \<lparr>m_poolsize = 4, m_pool = Some 2, m_currentIdx = 0, m_next = Some 5\<rparr>,
                   5 \<mapsto> \<lparr>m_poolsize = 4, m_pool = Some 4, m_currentIdx = 0, m_next = None\<rparr>],
          arrays = [0 \<mapsto> 4, 2 \<mapsto> 4, 4 \<mapsto> 4], fresh = 6,
          m_first = Some 1, m_current = Some 1, m_freeList = Some 3, m_capacity = 12\<rparr>"
  let ?d = "\<lparr>m_poolsize = 4 :: size_t, m_pool = Some 0, m_currentIdx = 0, m_next = None\<rparr>"
  have e: "m_current TPoolAllocator_default = None"
    by (simp add: TPoolAllocator_default_def empty_memory_def)
  have c: "m_current (TPoolAllocator_numItems 4) = Some 1"
    "pools (TPoolAllocator_numItems 4) 1 = Some ?d"
    by (simp_all add: ctor_numItems_state)
  have k: "cursors_ok (TPoolAllocator_numItems 4)"
    by (rule ctor_cursors_ok) simp
  have r: "reachable (TPoolAllocator_numItems 4)"
    by (rule r_numItems)
  have rw: "reachable ?w"
    by (rule reach_three_released_full)
  have hw: "m_current ?w = Some 1" "pools ?w 1 = Some ?a"
    by simp_all
  from alloc_null_iff_no_chunk [of TPoolAllocator_default] e
  have 1: "alloc TPoolAllocator_default = Inr (None, TPoolAllocator_default)"
    by blast
  let ?s1 = "(TPoolAllocator_numItems 4)\<lparr>pools := (pools (TPoolAllocator_numItems 4))
                (1 \<mapsto> ?d\<lparr>m_currentIdx := m_currentIdx ?d + 1\<rparr>)\<rparr>"
  from alloc_null_iff_no_chunk [of "TPoolAllocator_numItems 4"] r c k
  have 2: "alloc (TPoolAllocator_numItems 4) = Inr (Some (0, 0), ?s1) \<and> cursors_ok ?s1"
    by (auto split: if_splits)
  have s2: "?s1 = \<lparr>pools = [1 \<mapsto> \<lparr>m_poolsize = 4, m_pool = Some 0, m_currentIdx = 1,
                               m_next = None\<rparr>],
           arrays = [0 \<mapsto> 4], fresh = 2,
           m_first = Some 1, m_current = Some 1, m_freeList = None, m_capacity = 4\<rparr>"
    by (simp add: ctor_numItems_state)
  let ?b = "\<lparr>m_poolsize = 4 :: size_t, m_pool = Some 2, m_currentIdx = 0, m_next = Some 5\<rparr>"
  let ?t = "?w\<lparr>m_freeList := m_next ?b,
              pools := (pools ?w)(1 \<mapsto> ?a\<lparr>m_next := Some 3\<rparr>, 3 \<mapsto> ?b\<lparr>m_currentIdx := 1\<rparr>),
              m_current := Some 3\<rparr>"
  from alloc_null_iff_no_chunk [of ?w] rw hw
  have 3: "alloc ?w = Inr (Some (2, 0), ?t)"
    by (auto split: if_splits)
  have t: "?t = \<lparr>pools = [1 \<mapsto> \<lparr>m_poolsize = 4, m_pool = Some 0, m_currentIdx = 4, m_next = Some 3\<rparr>,
                 3 \<mapsto> \<lparr>m_poolsize = 4, m_pool = Some 2, m_currentIdx = 1, m_next = Some 5\<rparr>,
                 5 \<mapsto> \<lparr>m_poolsize = 4, m_pool = Some 4, m_currentIdx = 0, m_next = None\<rparr>],
        arrays = [0 \<mapsto> 4, 2 \<mapsto> 4, 4 \<mapsto> 4], fresh = 6,
        m_first = Some 1, m_current = Some 3, m_freeList = Some 5, m_capacity = 12\<rparr>"
    by (simp add: fun_eq_iff)
  show ?thesis
    using e 1 r k c 2 3 unfolding s2 t by (intro conjI) simp_all
qed

section \<open>Growth\<close>

lemma growth_from_inv:
  assumes inv: "pool_inv s" and cur: "m_current s = Some c" and c: "pools s c = Some d"
    and full: "m_currentIdx d = m_poolsize d"
  shows "\<exists>r s'. alloc s = Inr (r, s') \<and> pool_inv s' \<and>
     (\<forall>ps. pool_chain (pools s') (m_first s') ps \<longrightarrow> sorted (map (psize (pools s')) ps)) \<and>
     (case m_freeList s of
        Some f \<Rightarrow>
          m_current s' = Some f \<and>
          (\<exists>cf. pools s f = Some cf \<and> m_poolsize d \<le> m_poolsize cf) \<and>
          pools s' c = Some (d\<lparr>m_next := Some f\<rparr>) \<and>
          fresh s' = fresh s \<and> arrays s' = arrays s \<and> dom (pools s') = dom (pools s) \<and>
          capacity s' = capacity s
      | None \<Rightarrow>
          (\<exists>p b. m_current s' = Some p \<and> pools s p = None \<and> arrays s b = None \<and>
             pools s' p =
               Some \<lparr>m_poolsize = m_poolsize d, m_pool = Some b, m_currentIdx = 1,
                     m_next = None\<rparr> \<and>
             arrays s' = (arrays s)(b \<mapsto> m_poolsize d) \<and>
             pools s' c = Some (d\<lparr>m_next := Some p\<rparr>) \<and>
             capacity s' = capacity s + m_poolsize d))"
proof -
  from inv cur obtain xs c' ys fl where lay0: "layout s xs c' ys fl"
    by (auto simp: pool_inv_def)
  with cur have "c' = c" by (simp add: layout_def)
  with lay0 have lay: "layout s xs c ys fl" by simp
  have hb: "heap_bounded s"
    using lay by (simp add: layout_def)
  show ?thesis
  proof (cases fl)
    case Nil
    let ?p = "Suc (fresh s)"
    let ?n = "\<lparr>m_poolsize = m_poolsize d, m_pool = Some (fresh s), m_currentIdx = 1,
               m_next = None\<rparr>"
    let ?s = "s\<lparr>arrays := (arrays s)(fresh s \<mapsto> m_poolsize d),
                  pools := (pools s)(c \<mapsto> d\<lparr>m_next := Some ?p\<rparr>, ?p \<mapsto> ?n),
                  fresh := Suc (Suc (fresh s)),
                  m_capacity := m_capacity s + m_poolsize d,
                  m_current := Some ?p\<rparr>"
    from Nil lay have lay': "layout s xs c ys []" by simp
    from alloc_fresh [OF lay' c full]
    have a: "alloc s = Inr (Some (fresh s, 0), ?s)" and l: "layout ?s (xs @ [c]) ?p [] []"
      by simp_all
    have free: "m_freeList s = None"
      using lay' by (simp add: layout_def)
    have "c < fresh s"
      using hb c by (rule heap_bounded_pool_less)
    then have ne: "c \<noteq> ?p" by simp
    have new: "pools s ?p = None" "arrays s (fresh s) = None"
      using hb by (simp_all add: heap_bounded_def)
    have 1: "pool_inv ?s"
      using l unfolding pool_inv_def by blast
    have 2: "\<forall>ps. pool_chain (pools ?s) (m_first ?s) ps \<longrightarrow> sorted (map (psize (pools ?s)) ps)"
      using layout_chain_sorted [OF l] by blast
    have 3: "m_current ?s = Some ?p" "pools ?s ?p = Some ?n"
      "arrays ?s = (arrays s)(fresh s \<mapsto> m_poolsize d)"
      "pools ?s c = Some (d\<lparr>m_next := Some ?p\<rparr>)"
      "capacity ?s = capacity s + m_poolsize d"
      using ne by (simp_all add: capacity_def)
    show ?thesis
      using a 1 2 3 new free by (intro exI [of _ "Some (fresh s, 0)"] exI [of _ ?s]) auto
  next
    case (Cons f fl')
    with lay have lay': "layout s xs c ys (f # fl')" by simp
    then have "chunk_ok (pools s) (arrays s) f"
      by (simp add: layout_def)
    then obtain cf bf where f: "pools s f = Some cf" and bf: "m_pool cf = Some bf"
      by (auto simp: chunk_ok_def split: option.splits)
    let ?s = "s\<lparr>m_freeList := (case fl' of [] \<Rightarrow> None | f' # fs \<Rightarrow> Some f'),
                  pools := (pools s)(c \<mapsto> d\<lparr>m_next := Some f\<rparr>, f \<mapsto> cf\<lparr>m_currentIdx := 1\<rparr>),
                  m_current := Some f\<rparr>"
    from alloc_reuse [OF lay' c full f bf]
    have a: "alloc s = Inr (Some (bf, 0), ?s)" and l: "layout ?s (xs @ [c]) f [] fl'"
      by simp_all
    have free: "m_freeList s = Some f"
      using lay' by (simp add: layout_def)
    have "distinct (xs @ c # ys @ f # fl')"
      using lay' by (rule layout_distinct)
    then have ne: "c \<noteq> f" by auto
    have "sorted (map (psize (pools s)) (xs @ c # ys @ f # fl'))"
      using lay' by (simp add: layout_def)
    then have "psize (pools s) c \<le> psize (pools s) f"
      by (simp add: sorted_append)
    then have le: "m_poolsize d \<le> m_poolsize cf"
      using c f by (simp add: psize_def)
    have 1: "pool_inv ?s"
      using l unfolding pool_inv_def by blast
    have 2: "\<forall>ps. pool_chain (pools ?s) (m_first ?s) ps \<longrightarrow> sorted (map (psize (pools ?s)) ps)"
      using layout_chain_sorted [OF l] by blast
    have 3: "m_current ?s = Some f" "pools ?s c = Some (d\<lparr>m_next := Some f\<rparr>)"
      "fresh ?s = fresh s" "arrays ?s = arrays s" "capacity ?s = capacity s"
      using ne by (simp_all add: capacity_def)
    have 4: "dom (pools ?s) = dom (pools s)"
      using c f by auto
    show ?thesis
      using a 1 2 3 4 f le free by (intro exI [of _ "Some (bf, 0)"] exI [of _ ?s]) auto
  qed
qed

text \<open>
  C2. In a reachable state whose active chunk \<open>c\<close> is live and full, \<open>alloc()\<close> grows
  the pool. If the free list is not empty, its head \<open>f\<close> is taken off the free list (the
  free list becomes the successor of \<open>f\<close>, so the other retired chunks \<open>fl\<close> stay on
  it), \<open>f\<close> becomes the active chunk and the successor of \<open>c\<close>, and its first slot is
  returned; \<open>f\<close> is at least as large as \<open>c\<close>; nothing is allocated (\<open>fresh\<close>, the
  arrays and the set of live chunks are unchanged) and the capacity is unchanged. Only
  if the free list is empty a new chunk is created, with a new array, of the size of
  \<open>c\<close>, linked after \<open>c\<close>; the capacity grows by that size and the free list stays
  empty. The state after the call is given in full in both cases, and in both the sizes
  along the primary chain do not decrease.
\<close>

theorem growth_reuses_before_allocating:
  assumes "reachable s" and "m_current s = Some c" and "pools s c = Some d"
    and "m_currentIdx d = m_poolsize d"
  shows "\<exists>r s'. alloc s = Inr (r, s') \<and>
     (\<forall>ps. pool_chain (pools s') (m_first s') ps \<longrightarrow> sorted (map (psize (pools s')) ps)) \<and>
     (case m_freeList s of
        Some f \<Rightarrow>
          m_current s' = Some f \<and>
          (\<exists>cf. pools s f = Some cf \<and> m_poolsize d \<le> m_poolsize cf) \<and>
          pools s' c = Some (d\<lparr>m_next := Some f\<rparr>) \<and>
          fresh s' = fresh s \<and> arrays s' = arrays s \<and> dom (pools s') = dom (pools s) \<and>
          capacity s' = capacity s \<and>
          (\<exists>cf bf fl.
             pools s f = Some cf \<and> m_pool cf = Some bf \<and> m_currentIdx cf = 0 \<and>
             pool_chain (pools s) (m_freeList s) (f # fl) \<and>
             r = Some (bf, 0) \<and>
             s' = s\<lparr>m_freeList := m_next cf,
                    pools := (pools s)(c \<mapsto> d\<lparr>m_next := Some f\<rparr>,
                                       f \<mapsto> cf\<lparr>m_currentIdx := 1\<rparr>),
                    m_current := Some f\<rparr> \<and>
             m_freeList s' = m_next cf \<and>
             pool_chain (pools s') (m_freeList s') fl)
      | None \<Rightarrow>
          (\<exists>p b. m_current s' = Some p \<and> pools s p = None \<and> arrays s b = None \<and>
             pools s' p =
               Some \<lparr>m_poolsize = m_poolsize d, m_pool = Some b, m_currentIdx = 1,
                     m_next = None\<rparr> \<and>
             arrays s' = (arrays s)(b \<mapsto> m_poolsize d) \<and>
             pools s' c = Some (d\<lparr>m_next := Some p\<rparr>) \<and>
             capacity s' = capacity s + m_poolsize d \<and>
             r = Some (b, 0) \<and> m_freeList s' = None \<and>
             s' = s\<lparr>arrays := (arrays s)(b \<mapsto> m_poolsize d),
                    pools := (pools s)
                      (c \<mapsto> d\<lparr>m_next := Some p\<rparr>,
                       p \<mapsto> \<lparr>m_poolsize = m_poolsize d, m_pool = Some b, m_currentIdx = 1,
                              m_next = None\<rparr>),
                    fresh := Suc (Suc (fresh s)),
                    m_capacity := m_capacity s + m_poolsize d,
                    m_current := Some p\<rparr>))"
proof -
  have inv: "pool_inv s"
    using assms(1-3) by (rule reachable_live_inv)
  from growth_from_inv [OF inv assms(2-4)] obtain r s' where
    a: "alloc s = Inr (r, s')"
    and srt: "\<forall>ps. pool_chain (pools s') (m_first s') ps \<longrightarrow>
        sorted (map (psize (pools s')) ps)"
    and old: "case m_freeList s of
        Some f \<Rightarrow>
          m_current s' = Some f \<and>
          (\<exists>cf. pools s f = Some cf \<and> m_poolsize d \<le> m_poolsize cf) \<and>
          pools s' c = Some (d\<lparr>m_next := Some f\<rparr>) \<and>
          fresh s' = fresh s \<and> arrays s' = arrays s \<and> dom (pools s') = dom (pools s) \<and>
          capacity s' = capacity s
      | None \<Rightarrow>
          (\<exists>p b. m_current s' = Some p \<and> pools s p = None \<and> arrays s b = None \<and>
             pools s' p =
               Some \<lparr>m_poolsize = m_poolsize d, m_pool = Some b, m_currentIdx = 1,
                     m_next = None\<rparr> \<and>
             arrays s' = (arrays s)(b \<mapsto> m_poolsize d) \<and>
             pools s' c = Some (d\<lparr>m_next := Some p\<rparr>) \<and>
             capacity s' = capacity s + m_poolsize d)"
    by blast
  note ex = growth_exact [OF inv assms(2-4)]
  show ?thesis
  proof (cases "m_freeList s")
    case None
    let ?p = "Suc (fresh s)" and ?b = "fresh s"
    let ?t = "s\<lparr>arrays := (arrays s)(?b \<mapsto> m_poolsize d),
                    pools := (pools s)
                      (c \<mapsto> d\<lparr>m_next := Some ?p\<rparr>,
                       ?p \<mapsto> \<lparr>m_poolsize = m_poolsize d, m_pool = Some ?b, m_currentIdx = 1,
                              m_next = None\<rparr>),
                    fresh := Suc (Suc (fresh s)),
                    m_capacity := m_capacity s + m_poolsize d,
                    m_current := Some ?p\<rparr>"
    from ex None have new: "pools s ?p = None" "arrays s ?b = None" "c \<noteq> ?p"
      and a': "alloc s = Inr (Some (?b, 0), ?t)"
      by simp_all
    from a a' have r: "r = Some (?b, 0)" and s': "s' = ?t" by simp_all
    have "m_current ?t = Some ?p \<and> pools s ?p = None \<and> arrays s ?b = None \<and>
             pools ?t ?p =
               Some \<lparr>m_poolsize = m_poolsize d, m_pool = Some ?b, m_currentIdx = 1,
                     m_next = None\<rparr> \<and>
             arrays ?t = (arrays s)(?b \<mapsto> m_poolsize d) \<and>
             pools ?t c = Some (d\<lparr>m_next := Some ?p\<rparr>) \<and>
             capacity ?t = capacity s + m_poolsize d \<and>
             Some (?b, 0 :: size_t) = Some (?b, 0) \<and> m_freeList ?t = None \<and> ?t = ?t"
      using new None by (simp add: capacity_def)
    then have "\<exists>p b. m_current ?t = Some p \<and> pools s p = None \<and> arrays s b = None \<and>
             pools ?t p =
               Some \<lparr>m_poolsize = m_poolsize d, m_pool = Some b, m_currentIdx = 1,
                     m_next = None\<rparr> \<and>
             arrays ?t = (arrays s)(b \<mapsto> m_poolsize d) \<and>
             pools ?t c = Some (d\<lparr>m_next := Some p\<rparr>) \<and>
             capacity ?t = capacity s + m_poolsize d \<and>
             Some (?b, 0 :: size_t) = Some (b, 0) \<and> m_freeList ?t = None \<and>
             ?t = s\<lparr>arrays := (arrays s)(b \<mapsto> m_poolsize d),
                    pools := (pools s)
                      (c \<mapsto> d\<lparr>m_next := Some p\<rparr>,
                       p \<mapsto> \<lparr>m_poolsize = m_poolsize d, m_pool = Some b, m_currentIdx = 1,
                              m_next = None\<rparr>),
                    fresh := Suc (Suc (fresh s)),
                    m_capacity := m_capacity s + m_poolsize d,
                    m_current := Some p\<rparr>"
      by (intro exI [of _ ?p] exI [of _ ?b])
    with a srt None r s' show ?thesis
      by (intro exI [of _ r] exI [of _ s']) simp
  next
    case (Some f)
    from ex Some obtain cf bf fl where
      e: "pools s f = Some cf" "m_pool cf = Some bf" "m_currentIdx cf = 0"
        "pool_chain (pools s) (m_freeList s) (f # fl)"
      and a': "alloc s =
               Inr (Some (bf, 0),
                    s\<lparr>m_freeList := m_next cf,
                      pools := (pools s)(c \<mapsto> d\<lparr>m_next := Some f\<rparr>,
                                         f \<mapsto> cf\<lparr>m_currentIdx := 1\<rparr>),
                      m_current := Some f\<rparr>)"
      and after: "pool_chain ((pools s)(c \<mapsto> d\<lparr>m_next := Some f\<rparr>, f \<mapsto> cf\<lparr>m_currentIdx := 1\<rparr>))
               (m_next cf) fl"
      by auto
    from a a' have r: "r = Some (bf, 0)"
      and s': "s' = s\<lparr>m_freeList := m_next cf,
                      pools := (pools s)(c \<mapsto> d\<lparr>m_next := Some f\<rparr>,
                                         f \<mapsto> cf\<lparr>m_currentIdx := 1\<rparr>),
                      m_current := Some f\<rparr>"
      by simp_all
    have fl': "m_freeList s' = m_next cf" and ch: "pool_chain (pools s') (m_freeList s') fl"
      using after by (simp_all add: s')
    have new: "\<exists>cf bf fl.
             pools s f = Some cf \<and> m_pool cf = Some bf \<and> m_currentIdx cf = 0 \<and>
             pool_chain (pools s) (m_freeList s) (f # fl) \<and>
             r = Some (bf, 0) \<and>
             s' = s\<lparr>m_freeList := m_next cf,
                    pools := (pools s)(c \<mapsto> d\<lparr>m_next := Some f\<rparr>,
                                       f \<mapsto> cf\<lparr>m_currentIdx := 1\<rparr>),
                    m_current := Some f\<rparr> \<and>
             m_freeList s' = m_next cf \<and>
             pool_chain (pools s') (m_freeList s') fl"
      using e r s' fl' ch by blast
    from old Some have o: "m_current s' = Some f \<and>
          (\<exists>cf. pools s f = Some cf \<and> m_poolsize d \<le> m_poolsize cf) \<and>
          pools s' c = Some (d\<lparr>m_next := Some f\<rparr>) \<and>
          fresh s' = fresh s \<and> arrays s' = arrays s \<and> dom (pools s') = dom (pools s) \<and>
          capacity s' = capacity s"
      by simp
    show ?thesis
      apply (rule exI [of _ r], rule exI [of _ s'])
      using a srt o new by (simp only: Some option.case)
  qed
qed

theorem growth_reuses_before_allocating_witness:
  "(\<exists>s'.
      alloc \<lparr>pools = [1 \<mapsto> \<lparr>m_poolsize = 4, m_pool = Some 0, m_currentIdx = 4, m_next = Some 3\<rparr>,
                      3 \<mapsto> \<lparr>m_poolsize = 4, m_pool = Some 2, m_currentIdx = 0, m_next = Some 5\<rparr>,
                      5 \<mapsto> \<lparr>m_poolsize = 4, m_pool = Some 4, m_currentIdx = 0, m_next = None\<rparr>],
             arrays = [0 \<mapsto> 4, 2 \<mapsto> 4, 4 \<mapsto> 4], fresh = 6,
             m_first = Some 1, m_current = Some 1, m_freeList = Some 3, m_capacity = 12\<rparr> =
        Inr (Some (2, 0), s') \<and>
      m_current s' = Some 3 \<and> m_freeList s' = Some 5 \<and>
      pool_chain (pools s') (m_freeList s') [5] \<and>
      fresh s' = 6 \<and> capacity s' = 12) \<and>
   (\<exists>s'.
      alloc \<lparr>pools = [1 \<mapsto> \<lparr>m_poolsize = 4, m_pool = Some 0, m_currentIdx = 4, m_next = Some 3\<rparr>,
                      3 \<mapsto> \<lparr>m_poolsize = 4, m_pool = Some 2, m_currentIdx = 0, m_next = None\<rparr>],
             arrays = [0 \<mapsto> 4, 2 \<mapsto> 4], fresh = 4,
             m_first = Some 1, m_current = Some 1, m_freeList = Some 3, m_capacity = 8\<rparr> =
        Inr (Some (2, 0), s') \<and>
      m_current s' = Some 3 \<and> m_freeList s' = None \<and> fresh s' = 4 \<and> capacity s' = 8) \<and>
   (\<exists>s' p b.
      alloc \<lparr>pools = [1 \<mapsto> \<lparr>m_poolsize = 4, m_pool = Some 0, m_currentIdx = 4, m_next = None\<rparr>],
             arrays = [0 \<mapsto> 4], fresh = 2,
             m_first = Some 1, m_current = Some 1, m_freeList = None, m_capacity = 4\<rparr> =
        Inr (Some (b, 0), s') \<and>
      m_current s' = Some p \<and> m_freeList s' = None \<and>
      pools s' p =
        Some \<lparr>m_poolsize = 4, m_pool = Some b, m_currentIdx = 1, m_next = None\<rparr> \<and>
      fresh s' = 4 \<and> capacity s' = 8)"
proof -
  let ?a = "\<lparr>m_poolsize = 4 :: size_t, m_pool = Some 0, m_currentIdx = 4, m_next = Some 3\<rparr>"
  let ?w = "\<lparr>pools = [1 \<mapsto> ?a,
                      3 \<mapsto> \<lparr>m_poolsize = 4, m_pool = Some 2, m_currentIdx = 0, m_next = Some 5\<rparr>,
                      5 \<mapsto> \<lparr>m_poolsize = 4, m_pool = Some 4, m_currentIdx = 0, m_next = None\<rparr>],
             arrays = [0 \<mapsto> 4, 2 \<mapsto> 4, 4 \<mapsto> 4], fresh = 6,
             m_first = Some 1, m_current = Some 1, m_freeList = Some 3, m_capacity = 12\<rparr>"
  let ?s = "\<lparr>pools = [1 \<mapsto> ?a,
                      3 \<mapsto> \<lparr>m_poolsize = 4, m_pool = Some 2, m_currentIdx = 0, m_next = None\<rparr>],
             arrays = [0 \<mapsto> 4, 2 \<mapsto> 4], fresh = 4,
             m_first = Some 1, m_current = Some 1, m_freeList = Some 3, m_capacity = 8\<rparr>"
  let ?e = "\<lparr>m_poolsize = 4 :: size_t, m_pool = Some 0, m_currentIdx = 4, m_next = None\<rparr>"
  let ?t = "\<lparr>pools = [1 \<mapsto> ?e],
             arrays = [0 \<mapsto> 4], fresh = 2,
             m_first = Some 1, m_current = Some 1, m_freeList = None, m_capacity = 4\<rparr>"
  have i0: "reachable ?w"
    by (rule reach_three_released_full)
  have i1: "reachable ?s"
    using reach_released_full [of 4] by simp
  have i2: "reachable ?t"
    using reach_full_ctor [of 4] by simp
  have h0: "m_current ?w = Some 1" "pools ?w 1 = Some ?a" "m_currentIdx ?a = m_poolsize ?a"
    by simp_all
  have h1: "m_current ?s = Some 1" "pools ?s 1 = Some ?a" "m_currentIdx ?a = m_poolsize ?a"
    by simp_all
  have h2: "m_current ?t = Some 1" "pools ?t 1 = Some ?e" "m_currentIdx ?e = m_poolsize ?e"
    by simp_all
  from growth_reuses_before_allocating [OF i0 h0]
  have 0: "\<exists>s'. alloc ?w = Inr (Some (2, 0), s') \<and> m_current s' = Some 3 \<and>
      m_freeList s' = Some 5 \<and> pool_chain (pools s') (m_freeList s') [5] \<and>
      fresh s' = 6 \<and> capacity s' = 12"
    by (auto simp: capacity_def pool_chain_Cons)
  from growth_reuses_before_allocating [OF i1 h1]
  have 1: "\<exists>s'. alloc ?s = Inr (Some (2, 0), s') \<and> m_current s' = Some 3 \<and>
      m_freeList s' = None \<and> fresh s' = 4 \<and> capacity s' = 8"
    by (auto simp: capacity_def)
  from growth_reuses_before_allocating [OF i2 h2]
  have 2: "\<exists>s' p b. alloc ?t = Inr (Some (b, 0), s') \<and> m_current s' = Some p \<and>
      m_freeList s' = None \<and>
      pools s' p = Some \<lparr>m_poolsize = 4, m_pool = Some b, m_currentIdx = 1, m_next = None\<rparr> \<and>
      fresh s' = 4 \<and> capacity s' = 8"
    by (auto simp: capacity_def)
  from 0 1 2 show ?thesis by (intro conjI)
qed

section \<open>Release\<close>

lemma release_from_inv:
  assumes inv: "pool_inv s" and cur: "m_current s \<noteq> None"
  shows "\<exists>s' p d b ps.
     release s = Some (Inr s') \<and>
     m_first s = Some p \<and> pools s p = Some d \<and> m_pool d = Some b \<and>
     pool_chain (pools s) (m_first s) ps \<and>
     pools s' = zero_cursors ps (pools s) \<and>
     (\<forall>q\<in>set ps. pidx (pools s') q = 0) \<and>
     m_first s' = Some p \<and> m_current s' = Some p \<and>
     pool_chain (pools s') (m_freeList s') (tl ps) \<and>
     arrays s' = arrays s \<and> fresh s' = fresh s \<and> dom (pools s') = dom (pools s) \<and>
     capacity s' = capacity s \<and>
     freeMem s' = Inr (m_poolsize d) \<and> pool_inv s' \<and>
     (\<exists>s1. alloc_n (unat (m_poolsize d)) s' =
              Inr (map (\<lambda>j. Some (b, of_nat j)) [0..<unat (m_poolsize d)], s1) \<and>
           distinct (map (\<lambda>j. Some (b, of_nat j :: size_t)) [0..<unat (m_poolsize d)]) \<and>
           m_current s1 = Some p \<and> fresh s1 = fresh s \<and> m_freeList s1 = m_freeList s' \<and>
           capacity s1 = capacity s \<and> freeMem s1 = Inr 0 \<and>
           (\<exists>r s2. alloc s1 = Inr (r, s2) \<and> r \<noteq> None \<and> m_current s2 \<noteq> Some p))"
proof -
  from inv cur obtain xs c ys fl where lay: "layout s xs c ys fl"
    by (auto simp: pool_inv_def)
  obtain p rest where ps: "xs @ c # ys @ fl = p # rest"
    by (cases xs) auto
  then have "p \<in> set (xs @ c # ys @ fl)" by simp
  from layout_live [OF lay this] obtain d where p: "pools s p = Some d" ..
  have chain: "pool_chain (pools s) (m_first s) (p # rest)"
    using lay ps by (simp add: layout_def)
  then have first: "m_first s = Some p" and rest: "pool_chain (pools s) (m_next d) rest"
    using p by (auto simp: pool_chain_Cons)
  have "chunk_ok (pools s) (arrays s) p"
    using lay ps by (auto simp: layout_def)
  with p obtain b where b: "m_pool d = Some b"
    by (auto simp: chunk_ok_def split: option.splits)
  define s' where "s' = s\<lparr>pools := zero_cursors (p # rest) (pools s),
                    m_freeList := m_next d, m_current := Some p\<rparr>"
  from release_layout [OF lay ps p]
  have rel: "release s = Some (Inr s')" and lay': "layout s' [] p [] rest"
    by (simp_all add: s'_def)
  let ?d0 = "d\<lparr>m_currentIdx := 0\<rparr>"
  have p': "pools s' p = Some ?d0"
    using p by (simp add: s'_def zero_cursors_def)
  have 1: "pools s' = zero_cursors (p # rest) (pools s)" "m_first s' = Some p"
    "m_current s' = Some p" "arrays s' = arrays s" "fresh s' = fresh s"
    "capacity s' = capacity s" "m_freeList s' = m_next d"
    using first by (simp_all add: s'_def capacity_def)
  have 2: "\<forall>q\<in>set (p # rest). pidx (pools s') q = 0"
    by (simp add: s'_def pidx_zero_cursors)
  have 3: "pool_chain (pools s') (m_freeList s') (tl (p # rest))"
    using rest by (simp add: s'_def pool_chain_zero_cursors)
  have 4: "dom (pools s') = dom (pools s)"
    by (simp add: s'_def zero_cursors_dom)
  have 5: "freeMem s' = Inr (m_poolsize d)"
    using p' by (simp add: freeMem_def 1)
  have 6: "pool_inv s'"
    using lay' unfolding pool_inv_def by blast
  let ?k = "unat (m_poolsize d)"
  let ?dn = "?d0\<lparr>m_currentIdx := of_nat (0 + ?k)\<rparr>"
  define s1 where "s1 = s'\<lparr>pools := (pools s')(p \<mapsto> ?dn)\<rparr>"
  have an: "alloc_n ?k s' = Inr (map (\<lambda>j. Some (b, of_nat j)) [0..<0 + ?k], s1)"
    unfolding s1_def using 1(3) p' by (rule alloc_n_within) (simp_all add: b)
  have lay1: "layout s1 [] p [] rest"
    unfolding s1_def using lay' p' by (rule layout_bump)
  have p1: "pools s1 p = Some ?dn"
    by (simp add: s1_def)
  have full: "m_currentIdx ?dn = m_poolsize ?dn"
    by simp
  have 7: "m_current s1 = Some p" "fresh s1 = fresh s" "m_freeList s1 = m_freeList s'"
    "capacity s1 = capacity s" "freeMem s1 = Inr 0"
    using 1 by (simp_all add: s1_def capacity_def freeMem_def)
  have inv1: "pool_inv s1"
    using lay1 unfolding pool_inv_def by blast
  from alloc_full_moves_on [OF lay1 p1 full]
  have 8: "\<exists>r s2. alloc s1 = Inr (r, s2) \<and> r \<noteq> None \<and> m_current s2 \<noteq> Some p"
    by blast
  have 9: "distinct (map (\<lambda>j. Some (b, of_nat j :: size_t)) [0..<?k])"
    by (rule slots_distinct)
  have an': "alloc_n ?k s' = Inr (map (\<lambda>j. Some (b, of_nat j)) [0..<?k], s1)"
    using an by simp
  have tail: "\<exists>s1. alloc_n ?k s' = Inr (map (\<lambda>j. Some (b, of_nat j)) [0..<?k], s1) \<and>
           distinct (map (\<lambda>j. Some (b, of_nat j :: size_t)) [0..<?k]) \<and>
           m_current s1 = Some p \<and> fresh s1 = fresh s \<and> m_freeList s1 = m_freeList s' \<and>
           capacity s1 = capacity s \<and> freeMem s1 = Inr 0 \<and>
           (\<exists>r s2. alloc s1 = Inr (r, s2) \<and> r \<noteq> None \<and> m_current s2 \<noteq> Some p)"
    using an' 7 8 9 by blast
  show ?thesis
    apply (rule exI [of _ s'], rule exI [of _ p], rule exI [of _ d], rule exI [of _ b])
    apply (rule exI [of _ "p # rest"])
    apply (intro conjI)
                   apply (fact rel first p b chain 1 2 3 4 5 6 tail)+
    done
qed

text \<open>
  C5. In a reachable state whose active chunk is live, \<open>release()\<close> returns; the cursor
  of every chunk \<open>ps\<close> of the primary chain is 0 and nothing else in the chunks has
  changed; the head \<open>p\<close> is the active chunk; the free list is the chain of all chunks
  after the head; no array and no chunk is freed or allocated and the capacity is
  unchanged. Afterwards \<open>freeMem()\<close> is the size of the head chunk, that many calls of
  \<open>alloc()\<close> return pairwise distinct slots of the head's array without growth (the head
  stays active, nothing is allocated, the free list is untouched, \<open>freeMem()\<close> ends at
  0), and the call after these moves to another chunk.
\<close>

theorem release_resets_pool:
  assumes "reachable s" and "m_current s = Some c" and "pools s c = Some d0"
  shows "\<exists>s' p d b ps.
     release s = Some (Inr s') \<and>
     m_first s = Some p \<and> pools s p = Some d \<and> m_pool d = Some b \<and>
     pool_chain (pools s) (m_first s) ps \<and>
     pools s' = zero_cursors ps (pools s) \<and>
     (\<forall>q\<in>set ps. pidx (pools s') q = 0) \<and>
     m_first s' = Some p \<and> m_current s' = Some p \<and>
     pool_chain (pools s') (m_freeList s') (tl ps) \<and>
     arrays s' = arrays s \<and> fresh s' = fresh s \<and> dom (pools s') = dom (pools s) \<and>
     capacity s' = capacity s \<and>
     freeMem s' = Inr (m_poolsize d) \<and>
     (\<exists>s1. alloc_n (unat (m_poolsize d)) s' =
              Inr (map (\<lambda>j. Some (b, of_nat j)) [0..<unat (m_poolsize d)], s1) \<and>
           distinct (map (\<lambda>j. Some (b, of_nat j :: size_t)) [0..<unat (m_poolsize d)]) \<and>
           m_current s1 = Some p \<and> fresh s1 = fresh s \<and> m_freeList s1 = m_freeList s' \<and>
           capacity s1 = capacity s \<and> freeMem s1 = Inr 0 \<and>
           (\<exists>r s2. alloc s1 = Inr (r, s2) \<and> r \<noteq> None \<and> m_current s2 \<noteq> Some p))"
proof -
  have inv: "pool_inv s"
    using assms by (rule reachable_live_inv)
  have cur: "m_current s \<noteq> None"
    using assms(2) by simp
  from release_from_inv [OF inv cur] obtain s' p d b ps where
    "release s = Some (Inr s')" "m_first s = Some p" "pools s p = Some d" "m_pool d = Some b"
    "pool_chain (pools s) (m_first s) ps" "pools s' = zero_cursors ps (pools s)"
    "\<forall>q\<in>set ps. pidx (pools s') q = 0" "m_first s' = Some p" "m_current s' = Some p"
    "pool_chain (pools s') (m_freeList s') (tl ps)"
    "arrays s' = arrays s" "fresh s' = fresh s" "dom (pools s') = dom (pools s)"
    "capacity s' = capacity s" "freeMem s' = Inr (m_poolsize d)"
    "\<exists>s1. alloc_n (unat (m_poolsize d)) s' =
              Inr (map (\<lambda>j. Some (b, of_nat j)) [0..<unat (m_poolsize d)], s1) \<and>
           distinct (map (\<lambda>j. Some (b, of_nat j :: size_t)) [0..<unat (m_poolsize d)]) \<and>
           m_current s1 = Some p \<and> fresh s1 = fresh s \<and> m_freeList s1 = m_freeList s' \<and>
           capacity s1 = capacity s \<and> freeMem s1 = Inr 0 \<and>
           (\<exists>r s2. alloc s1 = Inr (r, s2) \<and> r \<noteq> None \<and> m_current s2 \<noteq> Some p)"
    by blast
  then show ?thesis
    apply -
    apply (rule exI [of _ s'], rule exI [of _ p], rule exI [of _ d], rule exI [of _ b])
    apply (rule exI [of _ ps])
    apply (intro conjI)
                   apply assumption+
    done
qed

theorem release_resets_pool_witness:
  "reachable
     \<lparr>pools = [1 \<mapsto> \<lparr>m_poolsize = 4, m_pool = Some 0, m_currentIdx = 4, m_next = Some 3\<rparr>,
               3 \<mapsto> \<lparr>m_poolsize = 4, m_pool = Some 2, m_currentIdx = 1, m_next = None\<rparr>],
      arrays = [0 \<mapsto> 4, 2 \<mapsto> 4], fresh = 4,
      m_first = Some 1, m_current = Some 3, m_freeList = None, m_capacity = 8\<rparr> \<and>
   (\<exists>s'. release
       \<lparr>pools = [1 \<mapsto> \<lparr>m_poolsize = 4, m_pool = Some 0, m_currentIdx = 4, m_next = Some 3\<rparr>,
                 3 \<mapsto> \<lparr>m_poolsize = 4, m_pool = Some 2, m_currentIdx = 1, m_next = None\<rparr>],
        arrays = [0 \<mapsto> 4, 2 \<mapsto> 4], fresh = 4,
        m_first = Some 1, m_current = Some 3, m_freeList = None, m_capacity = 8\<rparr> =
        Some (Inr s') \<and>
      m_current s' = Some 1 \<and> freeMem s' = Inr 4 \<and> capacity s' = 8 \<and>
      (\<exists>ptrs s1 r s2. alloc_n 4 s' = Inr (ptrs, s1) \<and> freeMem s1 = Inr 0 \<and>
         m_current s1 = Some 1 \<and> alloc s1 = Inr (r, s2) \<and> m_current s2 \<noteq> Some 1))"
proof -
  let ?d = "\<lparr>m_poolsize = 4 :: size_t, m_pool = Some 0, m_currentIdx = 4, m_next = Some 3\<rparr>"
  let ?e = "\<lparr>m_poolsize = 4 :: size_t, m_pool = Some 2, m_currentIdx = 1, m_next = None\<rparr>"
  let ?s = "\<lparr>pools = [1 \<mapsto> ?d, 3 \<mapsto> ?e],
      arrays = [0 \<mapsto> 4, 2 \<mapsto> 4], fresh = 4,
      m_first = Some 1, m_current = Some 3, m_freeList = None, m_capacity = 8\<rparr>"
  have i: "reachable ?s"
    using reach_two_chunks [of 4] by simp
  have c: "m_current ?s = Some 3" "pools ?s 3 = Some ?e"
    by simp_all
  from release_resets_pool [OF i c] obtain s' p d b s1 r s2 where
    r: "release ?s = Some (Inr s')" "m_first ?s = Some p" "pools ?s p = Some d"
      "m_current s' = Some p" "capacity s' = capacity ?s" "freeMem s' = Inr (m_poolsize d)"
      "alloc_n (unat (m_poolsize d)) s' =
         Inr (map (\<lambda>j. Some (b, of_nat j)) [0..<unat (m_poolsize d)], s1)"
      "m_current s1 = Some p" "freeMem s1 = Inr 0"
      "alloc s1 = Inr (r, s2)" "m_current s2 \<noteq> Some p"
    by blast
  from r(2) have p: "p = 1" by simp
  with r(3) have d: "d = ?d" by simp
  have "\<exists>ptrs s1 r s2. alloc_n 4 s' = Inr (ptrs, s1) \<and> freeMem s1 = Inr 0 \<and>
         m_current s1 = Some 1 \<and> alloc s1 = Inr (r, s2) \<and> m_current s2 \<noteq> Some 1"
    using r(7-11) p d by auto
  moreover have "m_current s' = Some 1" "freeMem s' = Inr 4" "capacity s' = 8"
    using r(4-6) p d by (simp_all add: capacity_def)
  ultimately show ?thesis
    using i r(1) by blast
qed

section \<open>Teardown\<close>

lemma clear_current_None: "clear s = Some (Inr s') \<Longrightarrow> m_current s' = None"
  by (auto simp: clear_def split: option.splits sum.splits)

lemma clear_empty: "m_current s = None \<Longrightarrow> clear s = Some (Inr s)"
  by (simp add: clear_def)

lemma clear_ctor4:
  "clear (TPoolAllocator_numItems 4) =
     Some (Inr \<lparr>pools = (\<lambda>a. None), arrays = (\<lambda>a. None), fresh = 2,
                m_first = Some 1, m_current = None, m_freeList = None, m_capacity = 4\<rparr>)"
  by (simp add: ctor_numItems_state clear_def clear_loop.simps delete_Pool_def fun_eq_iff)

text \<open>
  C1, evaluated on the code. A pool constructed with four elements is cleared. The call
  returns, \<open>m_current\<close> and \<open>m_freeList\<close> are null and a following \<open>alloc()\<close> returns
  null, but \<open>m_first\<close> still holds the address of the deleted chunk and \<open>capacity()\<close> is
  still 4: \<open>clear()\<close> assigns neither \<open>m_first\<close> nor \<open>m_capacity\<close>.
\<close>

theorem clear_keeps_first_and_capacity:
  "\<exists>s'. clear (TPoolAllocator_numItems 4) = Some (Inr s') \<and>
        m_first s' = Some 1 \<and> pools s' 1 = None \<and> capacity s' = 4 \<and>
        m_current s' = None \<and> m_freeList s' = None \<and> alloc s' = Inr (None, s')"
  by (simp add: clear_ctor4 capacity_def alloc_def)

text \<open>
  C9. Whenever a call of \<open>clear()\<close> has returned, a second call returns as well, without
  a fault (so nothing is deleted again), and leaves the state exactly as it was.
\<close>

theorem clear_twice_noop: "clear s = Some (Inr s') \<Longrightarrow> clear s' = Some (Inr s')"
  by (rule clear_empty) (rule clear_current_None)

theorem clear_twice_noop_witness:
  "clear (TPoolAllocator_numItems 4) =
     Some (Inr \<lparr>pools = (\<lambda>a. None), arrays = (\<lambda>a. None), fresh = 2,
                m_first = Some 1, m_current = None, m_freeList = None, m_capacity = 4\<rparr>) \<and>
   clear \<lparr>pools = (\<lambda>a. None), arrays = (\<lambda>a. None), fresh = 2,
          m_first = Some 1, m_current = None, m_freeList = None, m_capacity = 4\<rparr> =
     Some (Inr \<lparr>pools = (\<lambda>a. None), arrays = (\<lambda>a. None), fresh = 2,
                m_first = Some 1, m_current = None, m_freeList = None, m_capacity = 4\<rparr>)"
  using clear_twice_noop [OF clear_ctor4] clear_ctor4 by simp

section \<open>Reserve\<close>

lemma reserve_from_inv:
  assumes inv: "pool_inv s"
  shows "\<exists>s' p b. reserve m s = Some (Inr s') \<and>
     m_first s' = Some p \<and> m_current s' = Some p \<and> m_freeList s' = None \<and>
     pools s p = None \<and> arrays s b = None \<and>
     pools s' p = Some \<lparr>m_poolsize = m, m_pool = Some b, m_currentIdx = 0, m_next = None\<rparr> \<and>
     arrays s' b = Some m \<and>
     pool_chain (pools s') (m_first s') [p] \<and> capacity s' = m \<and> pool_inv s' \<and>
     (m_current s \<noteq> None \<longrightarrow>
        (\<forall>ps. pool_chain (pools s) (m_first s) ps \<longrightarrow>
           (\<forall>q\<in>set ps. pools s' q = None \<and>
              (\<forall>a. pbuf (pools s) q = Some a \<longrightarrow> arrays s' a = None))))"
proof (cases "m_current s")
  case None
  with inv have e: "m_current s = None" "m_freeList s = None" and hb: "heap_bounded s"
    by (auto simp: pool_inv_def layout_def)
  have cl: "clear s = Some (Inr s)"
    using e(1) by (rule clear_empty)
  show ?thesis
    using cl hb e refl hb by (rule reserve_from) (simp_all add: e)
next
  case (Some c0)
  with inv obtain xs c ys fl where lay: "layout s xs c ys fl"
    by (auto simp: pool_inv_def)
  let ?ps = "xs @ c # ys @ fl"
  define s1 where "s1 = s\<lparr>arrays := arrays s |` (- bufs_of (pools s) ?ps),
                    pools := pools s |` (- set ?ps),
                    m_current := None, m_freeList := None\<rparr>"
  from clear_layout [OF lay] have cl: "clear s = Some (Inr s1)" and hb1: "heap_bounded s1"
    by (simp_all add: s1_def)
  have e: "m_current s1 = None" "m_freeList s1 = None" and fr: "fresh s1 = fresh s"
    by (simp_all add: s1_def)
  have hb: "heap_bounded s"
    using lay by (simp add: layout_def)
  have torn: "m_current s \<noteq> None \<longrightarrow>
        (\<forall>ps. pool_chain (pools s) (m_first s) ps \<longrightarrow>
           (\<forall>q\<in>set ps. q < fresh s \<and> pools s1 q = None \<and>
              (\<forall>a. pbuf (pools s) q = Some a \<longrightarrow> a < fresh s \<and> arrays s1 a = None)))"
  proof (intro allI impI ballI)
    fix ps q
    assume "pool_chain (pools s) (m_first s) ps"
    moreover have "pool_chain (pools s) (m_first s) ?ps"
      using lay by (simp add: layout_def)
    ultimately have ps: "ps = ?ps" by (rule pool_chain_unique)
    assume "q \<in> set ps"
    with ps have q: "q \<in> set ?ps" by simp
    have "\<forall>p\<in>set ?ps. chunk_ok (pools s) (arrays s) p"
      using lay unfolding layout_def by blast
    with q have ok: "chunk_ok (pools s) (arrays s) q" by blast
    from chunk_ok_buf_less [OF hb ok] obtain bq where
      bq: "pbuf (pools s) q = Some bq" "bq < fresh s" "q < fresh s" by blast
    have "bq \<in> bufs_of (pools s) ?ps"
      using q bq(1) unfolding bufs_of_def by blast
    then have "arrays s1 bq = None"
      by (simp add: s1_def)
    moreover have "pools s1 q = None"
      using q by (simp add: s1_def)
    ultimately show "q < fresh s \<and> pools s1 q = None \<and>
        (\<forall>a. pbuf (pools s) q = Some a \<longrightarrow> a < fresh s \<and> arrays s1 a = None)"
      using bq by simp
  qed
  show ?thesis
    using cl hb1 e fr hb torn by (rule reserve_from)
qed

lemma reserve_from_reachable:
  assumes "reachable s" and "\<not> dangling s"
  shows "\<exists>s' p b. reserve m s = Some (Inr s') \<and>
     m_first s' = Some p \<and> m_current s' = Some p \<and> m_freeList s' = None \<and>
     pools s p = None \<and> arrays s b = None \<and>
     pools s' p = Some \<lparr>m_poolsize = m, m_pool = Some b, m_currentIdx = 0, m_next = None\<rparr> \<and>
     arrays s' b = Some m \<and>
     pool_chain (pools s') (m_first s') [p] \<and> capacity s' = m \<and> pool_inv s' \<and>
     (m_current s \<noteq> None \<longrightarrow>
        (\<forall>ps. pool_chain (pools s) (m_first s) ps \<longrightarrow>
           (\<forall>q\<in>set ps. pools s' q = None \<and>
              (\<forall>a. pbuf (pools s) q = Some a \<longrightarrow> arrays s' a = None))))"
proof -
  from reachable_inv [OF assms(1)] assms(2) have "pool_inv s" by blast
  then show ?thesis by (rule reserve_from_inv)
qed

text \<open>
  C7, evaluated on the code. A pool constructed with four elements is cleared and then
  reset. \<open>clear()\<close> has left the address of the deleted chunk in \<open>m_first\<close>, so \<open>reset()\<close>
  makes the deleted chunk the active one. In this reachable state \<open>reserve(2)\<close> calls
  \<open>clear()\<close>, which does not take its early return (\<open>m_current\<close> is not null), and the
  teardown loop reads the deleted chunk. (In every reachable state in which \<open>m_first\<close>
  and \<open>m_current\<close> do not both point to a deleted chunk, \<open>reserve\<close> does what the claim
  says: \<open>reserve_from_reachable\<close>.)
\<close>

theorem reserve_after_clear_and_reset:
  "clear (TPoolAllocator_numItems 4) =
     Some (Inr \<lparr>pools = (\<lambda>a. None), arrays = (\<lambda>a. None), fresh = 2,
                m_first = Some 1, m_current = None, m_freeList = None, m_capacity = 4\<rparr>) \<and>
   reset \<lparr>pools = (\<lambda>a. None), arrays = (\<lambda>a. None), fresh = 2,
          m_first = Some 1, m_current = None, m_freeList = None, m_capacity = 4\<rparr> =
     \<lparr>pools = (\<lambda>a. None), arrays = (\<lambda>a. None), fresh = 2,
      m_first = Some 1, m_current = Some 1, m_freeList = None, m_capacity = 4\<rparr> \<and>
   reachable \<lparr>pools = (\<lambda>a. None), arrays = (\<lambda>a. None), fresh = 2,
      m_first = Some 1, m_current = Some 1, m_freeList = None, m_capacity = 4\<rparr> \<and>
   reserve 2 \<lparr>pools = (\<lambda>a. None), arrays = (\<lambda>a. None), fresh = 2,
      m_first = Some 1, m_current = Some 1, m_freeList = None, m_capacity = 4\<rparr> =
     Some (Inl UseAfterFree)"
proof -
  let ?z = "\<lparr>pools = (\<lambda>a. None), arrays = (\<lambda>a. None), fresh = 2,
          m_first = Some 1, m_current = None, m_freeList = None, m_capacity = 4 :: size_t\<rparr>"
  let ?y = "\<lparr>pools = (\<lambda>a. None), arrays = (\<lambda>a. None), fresh = 2,
          m_first = Some 1, m_current = Some 1, m_freeList = None, m_capacity = 4 :: size_t\<rparr>"
  have rs: "reset ?z = ?y"
    by (simp add: reset_def)
  have "reachable ?z"
    using r_numItems clear_ctor4 by (rule r_clear)
  then have "reachable (reset ?z)"
    by (rule r_reset)
  then have ry: "reachable ?y"
    by (simp only: rs)
  have "reserve 2 ?y = Some (Inl UseAfterFree)"
    by (simp add: reserve_def clear_def clear_loop.simps)
  with clear_ctor4 rs ry show ?thesis
    by (intro conjI)
qed

section \<open>Null guards\<close>

text \<open>
  On a pool without an active chunk (\<open>m_current\<close> null), \<open>alloc\<close>, \<open>release\<close>,
  \<open>clear\<close> and \<open>freeMem\<close> return at once (null, no change, no change, 0) while
  \<open>dumpAllocations\<close> dereferences the null pointer. With a live active chunk
  \<open>dumpAllocations\<close> returns the text with the chunk's cursor.
\<close>

lemma null_guards:
  "(m_current s = None \<longrightarrow>
      alloc s = Inr (None, s) \<and> release s = Some (Inr s) \<and> clear s = Some (Inr s) \<and>
      freeMem s = Inr 0 \<and> dumpAllocations s = Inl NullDeref) \<and>
   (\<forall>p c. m_current s = Some p \<and> pools s p = Some c \<longrightarrow>
      dumpAllocations s =
        Inr (''Number allocations = '' @ to_string (unat (m_currentIdx c)) @ [CHR 0x0A]))"
  by (simp add: alloc_def release_def clear_def freeMem_def dumpAllocations_def deref_def)

lemma null_guards_example:
  "m_current TPoolAllocator_default = None \<and>
   alloc TPoolAllocator_default = Inr (None, TPoolAllocator_default) \<and>
   release TPoolAllocator_default = Some (Inr TPoolAllocator_default) \<and>
   clear TPoolAllocator_default = Some (Inr TPoolAllocator_default) \<and>
   freeMem TPoolAllocator_default = Inr 0 \<and>
   dumpAllocations TPoolAllocator_default = Inl NullDeref \<and>
   m_current (TPoolAllocator_numItems 4) = Some 1 \<and>
   dumpAllocations (TPoolAllocator_numItems 4) =
     Inr (''Number allocations = '' @ to_string 0 @ [CHR 0x0A])"
proof -
  have e: "m_current TPoolAllocator_default = None"
    by (simp add: TPoolAllocator_default_def empty_memory_def)
  have c: "m_current (TPoolAllocator_numItems 4) = Some 1 \<and>
      pools (TPoolAllocator_numItems 4) 1 =
        Some \<lparr>m_poolsize = 4, m_pool = Some 0, m_currentIdx = 0, m_next = None\<rparr>"
    by (simp add: ctor_numItems_state)
  from null_guards [of TPoolAllocator_default] e
    null_guards [of "TPoolAllocator_numItems 4"] c
  show ?thesis by simp
qed

text \<open>
  C10, evaluated on the code. \<open>resize\<close> is a public operation that reads and writes the
  active chunk. It tests \<open>m_current\<close> for null only before reading the chunk's size; the
  statements \<open>m_current->m_next = pool; m_current = m_current->m_next;\<close> are guarded by
  the test of \<open>m_first\<close> alone. A pool constructed with four elements and cleared has
  \<open>m_current\<close> null and the stale \<open>m_first\<close>, and there \<open>resize(4)\<close> dereferences the null
  \<open>m_current\<close>. So \<open>dumpAllocations\<close> is not the only public operation that dereferences
  the active chunk of an empty pool.
\<close>

theorem resize_after_clear_null_deref:
  "clear (TPoolAllocator_numItems 4) =
     Some (Inr \<lparr>pools = (\<lambda>a. None), arrays = (\<lambda>a. None), fresh = 2,
                m_first = Some 1, m_current = None, m_freeList = None, m_capacity = 4\<rparr>) \<and>
   reachable \<lparr>pools = (\<lambda>a. None), arrays = (\<lambda>a. None), fresh = 2,
      m_first = Some 1, m_current = None, m_freeList = None, m_capacity = 4\<rparr> \<and>
   resize 4 \<lparr>pools = (\<lambda>a. None), arrays = (\<lambda>a. None), fresh = 2,
      m_first = Some 1, m_current = None, m_freeList = None, m_capacity = 4\<rparr> =
     Inl NullDeref"
proof -
  let ?z = "\<lparr>pools = (\<lambda>a. None), arrays = (\<lambda>a. None), fresh = 2,
          m_first = Some 1, m_current = None, m_freeList = None, m_capacity = 4 :: size_t\<rparr>"
  have "reachable ?z"
    using r_numItems clear_ctor4 by (rule r_clear)
  moreover have "resize 4 ?z = Inl NullDeref"
    by (rule resize_after_clear_faults) simp_all
  ultimately show ?thesis
    using clear_ctor4 by (intro conjI)
qed

end
